theory Spec2Isabelle
  imports Complex_Main
begin

text \<open>
  The component \<open>TelegramParser\<close> is a React function component.  Its state
  variables become the fields of one record, every \<open>setX\<close> call becomes a record
  update, and what it does to the outside world (HTTP requests, timers) is appended to a
  trace kept in the same record.
\<close>

section \<open>JavaScript numbers, strings and arrays in the component\<close>

text \<open>
  The progress computation divides two non-negative integers, multiplies by \<open>100\<close>,
  rounds and takes a minimum.  On non-negative integers the JavaScript division yields a
  finite number, \<open>Infinity\<close> (a positive number divided by zero) or \<open>NaN\<close> (zero
  divided by zero).  Finite values are modelled as exact rationals: the rounding error of
  the IEEE doubles is left out.  The two differ where the exact value of
  \<open>fetched / total * 100\<close> is a half: the exact value rounds up, and the double can
  fall just below the half and round down (\<open>29 / 200\<close>: \<open>15\<close> here, \<open>14\<close> in doubles).
  Away from a half both give the same integer, and the result is an integer between
  \<open>0\<close> and \<open>100\<close> either way.
\<close>

datatype jsnum = Fin rat | PosInf | NaN

definition js_div :: "nat \<Rightarrow> nat \<Rightarrow> jsnum" where
  "js_div a b =
     (if b = 0 then (if a = 0 then NaN else PosInf) else Fin (of_nat a / of_nat b))"

text \<open>Multiplication by a positive finite constant.\<close>

fun js_times :: "jsnum \<Rightarrow> rat \<Rightarrow> jsnum" where
  "js_times (Fin r) c = Fin (r * c)"
| "js_times PosInf c = PosInf"
| "js_times NaN c = NaN"

text \<open>\<open>Math.round\<close> rounds to the nearest integer, a half towards \<open>+Infinity\<close>.\<close>

fun Math_round :: "jsnum \<Rightarrow> jsnum" where
  "Math_round (Fin r) = Fin (of_int (round r))"
| "Math_round PosInf = PosInf"
| "Math_round NaN = NaN"

fun Math_min :: "jsnum \<Rightarrow> jsnum \<Rightarrow> jsnum" where
  "Math_min NaN y = NaN"
| "Math_min x NaN = NaN"
| "Math_min PosInf y = y"
| "Math_min x PosInf = x"
| "Math_min (Fin a) (Fin b) = Fin (min a b)"

text \<open>
  \<open>x || d\<close> on an optional string: \<open>undefined\<close> and the empty string are falsy.
\<close>

definition or_else :: "string option \<Rightarrow> string \<Rightarrow> string" where
  "or_else x d = (case x of None \<Rightarrow> d | Some s \<Rightarrow> if s = [] then d else s)"

text \<open>\<open>x || 0\<close> on an optional number.\<close>

definition or_zero :: "nat option \<Rightarrow> nat" where
  "or_zero x = (case x of None \<Rightarrow> 0 | Some n \<Rightarrow> n)"

text \<open>\<open>s.includes(p)\<close>: \<open>p\<close> occurs in \<open>s\<close> as a contiguous substring.\<close>

fun js_includes :: "string \<Rightarrow> string \<Rightarrow> bool" where
  "js_includes [] p = (p = [])"
| "js_includes (c # cs) p = (take (length p) (c # cs) = p \<or> js_includes cs p)"

text \<open>A non-negative integer interpolated into a template string: its decimal digits.\<close>

definition digit :: "nat \<Rightarrow> char" where
  "digit d = ''0123456789'' ! d"

fun decimal :: "nat \<Rightarrow> string" where
  "decimal n = (if n < 10 then [digit n] else decimal (n div 10) @ [digit (n mod 10)])"

text \<open>
  \<open>Array.prototype.slice(start, end)\<close>: a negative index counts from the end of
  the array, and both indices are clamped to the array.
\<close>

definition js_slice :: "'a list \<Rightarrow> int \<Rightarrow> int \<Rightarrow> 'a list" where
  "js_slice xs start fin =
     (let len = int (length xs);
          k = (if start < 0 then max (len + start) 0 else min start len);
          final = (if fin < 0 then max (len + fin) 0 else min fin len)
      in take (nat (final - k)) (drop (nat k) xs))"

section \<open>Responses, exceptions and the component state\<close>

text \<open>
  The body of a response of the backend.  \<open>MembersResponse\<close> is the interface of the
  source; the response of \<open>/api/parse-group\<close> has the first three fields, with a
  \<open>GroupInfo\<close> as its data.
\<close>

record GroupInfo =
  group_id :: string
  name :: string
  member_count :: "nat option"
  description :: "string option"

record 'd ApiResponse =
  success :: bool
  data :: 'd
  error :: "string option"

record 'm MembersResponse = "'m list ApiResponse" +
  total_count :: "nat option"
  has_more :: bool

text \<open>
  What a \<open>catch\<close> block reads of the value it caught: \<open>err.response\<close> (absent, or
  present with its \<open>data?.error\<close>), whether \<open>err.request\<close> is there, and
  \<open>err.message\<close>.  \<open>new Error(m)\<close> has the message only.
\<close>

record exn =
  response_error :: "string option option"
  has_request :: bool
  message :: string

definition new_Error :: "string \<Rightarrow> exn" where
  "new_Error m = \<lparr>response_error = None, has_request = False, message = m\<rparr>"

text \<open>
  The effects on the outside world, in the order they happen: the POST to
  \<open>/api/parse-group\<close>, a GET to \<open>/api/group-members/<id>\<close> with its \<open>offset\<close> and
  \<open>limit\<close> parameters (the group id is the same in every request of a job and is left
  out), and a timer of so many milliseconds.
\<close>

datatype event = Post | Get nat nat | Sleep nat

text \<open>
  The state variables of the component that the fetch reads or writes, the trace of
  effects, and the list of the values \<open>setFetchProgress\<close> was called with.  The state
  variable \<open>error\<close> is \<open>error_state\<close> here (the response has a field of that name).
\<close>

record 'm state =
  loading :: bool
  error_state :: "string option"
  groupInfo :: "GroupInfo option"
  allMembers :: "'m list"
  currentPage :: int
  loadingMembers :: bool
  fetchProgress :: jsnum
  trace :: "event list"
  progress_log :: "jsnum list"

text \<open>The initial values of the state variables (the arguments of \<open>useState\<close>).\<close>

definition initial_state :: "'m state" where
  "initial_state =
     \<lparr>loading = False, error_state = None, groupInfo = None, allMembers = [],
      currentPage = 1, loadingMembers = False, fetchProgress = Fin 0, trace = [],
      progress_log = []\<rparr>"

text \<open>
  The backend is outside the component: the outcome of the request issued when the trace
  has \<open>n\<close> events is \<open>env n\<close>, either a rejected promise (\<open>Inl\<close>) or a response body.
\<close>

type_synonym 'm env = "nat \<Rightarrow> exn + 'm MembersResponse"

section \<open>Display pagination\<close>

definition MEMBERS_PER_PAGE :: int where
  "MEMBERS_PER_PAGE = 50"

definition getCurrentPageMembers :: "'m state \<Rightarrow> 'm list" where
  "getCurrentPageMembers s =
     (let startIndex = (currentPage s - 1) * MEMBERS_PER_PAGE
      in js_slice (allMembers s) startIndex (startIndex + MEMBERS_PER_PAGE))"

text \<open>
  The number of pages the \<open>Pagination\<close> control offers:
  \<open>Math.ceil(allMembers.length / MEMBERS_PER_PAGE)\<close>.
\<close>

definition totalPages :: "'m state \<Rightarrow> nat" where
  "totalPages s =
     nat \<lceil>(of_nat (length (allMembers s)) :: rat) / of_int MEMBERS_PER_PAGE\<rceil>"

section \<open>Fetching all members\<close>

definition batchSize :: nat where
  "batchSize = 50"

definition maxRetries :: nat where
  "maxRetries = 3"

text \<open>The variables local to one call of \<open>attemptFetch\<close>.\<close>

record 'm locals =
  allFetchedMembers :: "'m list"
  currentOffset :: nat
  hasMore :: bool

definition progress_of :: "nat \<Rightarrow> nat \<Rightarrow> jsnum" where
  "progress_of fetched totalMembers =
     Math_min (Math_round (js_times (js_div fetched totalMembers) 100)) (Fin 100)"

definition setFetchProgress :: "jsnum \<Rightarrow> 'm state \<Rightarrow> 'm state" where
  "setFetchProgress p s = s\<lparr>fetchProgress := p, progress_log := progress_log s @ [p]\<rparr>"

text \<open>
  One pass through the body of \<open>while (hasMore)\<close>.  The second component is the
  exception the pass threw, if any.
\<close>

definition loop_body ::
  "'m env \<Rightarrow> nat \<Rightarrow> 'm locals \<times> 'm state \<Rightarrow> ('m locals \<times> 'm state) \<times> exn option" where
  "loop_body env totalMembers ls =
     (let l = fst ls; s = snd ls;
          s1 = s\<lparr>trace := trace s @ [Get (currentOffset l) batchSize]\<rparr>
      in case env (length (trace s)) of
           Inl err \<Rightarrow> ((l, s1), Some err)
         | Inr response \<Rightarrow>
             if \<not> success response then
               ((l, s1), Some (new_Error (or_else (error response) ''Failed to fetch members'')))
             else if length (data response) > 0 then
               (let fetched = allFetchedMembers l @ data response;
                    l' = \<lparr>allFetchedMembers = fetched,
                          currentOffset = currentOffset l + batchSize,
                          hasMore = has_more response\<rparr>
                in ((l', setFetchProgress (progress_of (length fetched) totalMembers) s1), None))
             else ((l\<lparr>hasMore := False\<rparr>, setFetchProgress (Fin 100) s1), None))"

text \<open>
  The loop.  It runs as long as the backend says \<open>has_more\<close>, so it has fuel: the
  result \<open>None\<close> says that the loop was still running when the fuel ran out, and the
  state is the one reached by then.
\<close>

fun while_loop ::
  "nat \<Rightarrow> 'm env \<Rightarrow> nat \<Rightarrow> 'm locals \<times> 'm state \<Rightarrow> ('m locals \<times> 'm state) \<times> (exn + unit) option" where
  "while_loop 0 env totalMembers ls =
     (if hasMore (fst ls) then (ls, None) else (ls, Some (Inr ())))"
| "while_loop (Suc fuel) env totalMembers ls =
     (if hasMore (fst ls) then
        (case loop_body env totalMembers ls of
           (ls', Some err) \<Rightarrow> (ls', Some (Inl err))
         | (ls', None) \<Rightarrow> while_loop fuel env totalMembers ls')
      else (ls, Some (Inr ())))"

text \<open>The \<open>try\<close> block of \<open>attemptFetch\<close>.\<close>

definition try_block :: "nat \<Rightarrow> 'm env \<Rightarrow> 'm state \<Rightarrow> 'm state \<times> (exn + bool) option" where
  "try_block fuel env s =
     (let s0 = s\<lparr>trace := trace s @ [Get 0 1]\<rparr>
      in case env (length (trace s)) of
           Inl err \<Rightarrow> (s0, Some (Inl err))
         | Inr initialResponse \<Rightarrow>
             if \<not> success initialResponse then
               (s0, Some (Inl (new_Error
                  (or_else (error initialResponse) ''Failed to get member count''))))
             else
               (let totalMembers = or_zero (total_count initialResponse)
                in case while_loop fuel env totalMembers
                          (\<lparr>allFetchedMembers = [], currentOffset = 0, hasMore = True\<rparr>, s0) of
                     ((l, s1), None) \<Rightarrow> (s1, None)
                   | ((l, s1), Some (Inl err)) \<Rightarrow> (s1, Some (Inl err))
                   | ((l, s1), Some (Inr u)) \<Rightarrow>
                       (s1\<lparr>allMembers := allFetchedMembers l\<rparr>, Some (Inr True))))"

text \<open>
  The last part of the \<open>catch\<close> block of \<open>attemptFetch\<close>: the message shown when no
  retry is left.
\<close>

definition final_error :: "exn \<Rightarrow> string" where
  "final_error err =
     (let errorMessage =
            or_else (case response_error err of None \<Rightarrow> None | Some e \<Rightarrow> e)
              (or_else (Some (message err)) ''Failed to fetch members'')
      in if js_includes errorMessage ''Could not find the input entity''
         then ''Unable to access the group. Please make sure the bot is a member of the group and has admin rights.''
         else errorMessage @ ''. Please try again later.'')"

text \<open>
  \<open>attemptFetch\<close> calls itself from its \<open>catch\<close> block.  \<open>retryCount\<close> is a variable
  of the enclosing \<open>fetchAllMembers\<close> that the calls share; it is an argument here.
\<close>

function attemptFetch ::
  "nat \<Rightarrow> 'm env \<Rightarrow> nat \<Rightarrow> 'm state \<Rightarrow> 'm state \<times> bool option" where
  "attemptFetch fuel env retryCount s =
     (case try_block fuel env s of
        (s1, None) \<Rightarrow> (s1, None)
      | (s1, Some (Inr b)) \<Rightarrow> (s1, Some b)
      | (s1, Some (Inl err)) \<Rightarrow>
          if retryCount < maxRetries then
            attemptFetch fuel env (retryCount + 1)
              (s1\<lparr>error_state :=
                     Some (''Retrying... Attempt '' @ decimal (retryCount + 1)
                           @ '' of '' @ decimal maxRetries),
                  trace := trace s1 @ [Sleep 2000]\<rparr>)
          else (s1\<lparr>error_state := Some (final_error err)\<rparr>, Some False))"
  by pat_completeness auto
termination
  by (relation "measure (\<lambda>(fuel, env, retryCount, s). maxRetries - retryCount)") auto

definition fetchAllMembers :: "nat \<Rightarrow> 'm env \<Rightarrow> 'm state \<Rightarrow> 'm state \<times> unit option" where
  "fetchAllMembers fuel env s =
     (case attemptFetch fuel env 0 (setFetchProgress (Fin 0) (s\<lparr>loadingMembers := True\<rparr>)) of
        (s1, None) \<Rightarrow> (s1, None)
      | (s1, Some ok) \<Rightarrow>
          ((if \<not> ok then s1\<lparr>allMembers := []\<rparr> else s1)\<lparr>loadingMembers := False\<rparr>, Some ()))"

text \<open>The message the \<open>catch\<close> block of \<open>handleSubmit\<close> shows.\<close>

definition submit_error :: "exn \<Rightarrow> string" where
  "submit_error err =
     (case response_error err of
        Some e \<Rightarrow> or_else e ''Server error occurred''
      | None \<Rightarrow>
          if has_request err
          then ''Network error. Please check if the server is running.''
          else or_else (Some (message err)) ''An unexpected error occurred'')"

text \<open>
  \<open>handleSubmit\<close>: \<open>parse\<close> is the outcome of the POST to \<open>/api/parse-group\<close>.
\<close>

definition handleSubmit ::
  "nat \<Rightarrow> exn + GroupInfo ApiResponse \<Rightarrow> 'm env \<Rightarrow> 'm state \<Rightarrow> 'm state \<times> unit option" where
  "handleSubmit fuel parse env s =
     (let s1 = s\<lparr>loading := True, error_state := None, allMembers := [], currentPage := 1,
                  trace := trace s @ [Post]\<rparr>
      in case parse of
           Inr response \<Rightarrow>
             if success response then
               (case fetchAllMembers fuel env (s1\<lparr>groupInfo := Some (data response)\<rparr>) of
                  (s2, None) \<Rightarrow> (s2, None)
                | (s2, Some u) \<Rightarrow> (s2\<lparr>loading := False\<rparr>, Some ()))
             else
               (s1\<lparr>error_state := Some (or_else (error response) ''Failed to parse group''),
                   loading := False\<rparr>, Some ())
         | Inl err \<Rightarrow>
             (s1\<lparr>error_state := Some (submit_error err), loading := False\<rparr>, Some ()))"

section \<open>Vocabulary for the properties of the fetch\<close>

text \<open>
  What a page request contributes to \<open>allFetchedMembers\<close>: the data of a successful
  response, nothing otherwise.
\<close>

definition page_data :: "exn + 'm MembersResponse \<Rightarrow> 'm list" where
  "page_data r =
     (case r of Inl err \<Rightarrow> [] | Inr response \<Rightarrow> if success response then data response else [])"

text \<open>
  An outcome of a page request after which the loop asks for a further page, and its
  opposite, an outcome that ends the loop (by an exception or by \<open>hasMore = false\<close>).
\<close>

definition continues :: "exn + 'm MembersResponse \<Rightarrow> bool" where
  "continues r =
     (case r of Inl err \<Rightarrow> False
      | Inr response \<Rightarrow> success response \<and> data response \<noteq> [] \<and> has_more response)"

definition stops :: "exn + 'm MembersResponse \<Rightarrow> bool" where
  "stops r = (\<not> continues r)"

text \<open>The exception a pass through the loop body throws on an outcome, if any.\<close>

definition thrown :: "exn + 'm MembersResponse \<Rightarrow> exn option" where
  "thrown r =
     (case r of Inl err \<Rightarrow> Some err
      | Inr response \<Rightarrow>
          if success response then None
          else Some (new_Error (or_else (error response) ''Failed to fetch members'')))"

text \<open>The members collected from the \<open>k\<close> requests issued from trace position \<open>n\<close> on.\<close>

definition pages :: "'m env \<Rightarrow> nat \<Rightarrow> nat \<Rightarrow> 'm list" where
  "pages env n k = concat (map (\<lambda>i. page_data (env (n + i))) [0..<k])"

text \<open>
  The number of passes through the loop body when the loop is entered at trace position
  \<open>n\<close> with the given fuel.
\<close>

fun iterations :: "'m env \<Rightarrow> nat \<Rightarrow> nat \<Rightarrow> nat" where
  "iterations env n 0 = 0"
| "iterations env n (Suc fuel) =
     (if continues (env n) then Suc (iterations env (Suc n) fuel) else 1)"

text \<open>
  The requests of one attempt that asked for \<open>k\<close> pages: the request for the count,
  then the pages at the offsets \<open>0\<close>, \<open>50\<close>, \<open>100\<close>, ...
\<close>

definition page_requests :: "nat \<Rightarrow> nat \<Rightarrow> event list" where
  "page_requests off k = map (\<lambda>i. Get (off + i * batchSize) batchSize) [0..<k]"

definition attempt_events :: "nat \<Rightarrow> event list" where
  "attempt_events k = Get 0 1 # page_requests 0 k"

text \<open>
  The number of pages the attempt that starts at trace position \<open>n\<close> asks for: none
  when the request for the count fails.
\<close>

definition attempt_pages :: "nat \<Rightarrow> 'm env \<Rightarrow> nat \<Rightarrow> nat" where
  "attempt_pages fuel env n =
     (case env n of Inl err \<Rightarrow> 0
      | Inr response \<Rightarrow> if success response then iterations env (Suc n) fuel else 0)"


text \<open>
  The exception the request for the count makes an attempt throw, if any, and how the
  attempt whose request for the count is at trace position \<open>n\<close> ends: out of fuel
  (\<open>None\<close>), with an exception, or by returning.
\<close>

definition count_thrown :: "exn + 'm MembersResponse \<Rightarrow> exn option" where
  "count_thrown r =
     (case r of Inl err \<Rightarrow> Some err
      | Inr response \<Rightarrow>
          if success response then None
          else Some (new_Error (or_else (error response) ''Failed to get member count'')))"

definition attempt_result :: "nat \<Rightarrow> 'm env \<Rightarrow> nat \<Rightarrow> (exn + unit) option" where
  "attempt_result fuel env n =
     (case count_thrown (env n) of
        Some err \<Rightarrow> Some (Inl err)
      | None \<Rightarrow>
          if list_all (\<lambda>i. continues (env (Suc n + i))) [0..<fuel] then None
          else Some (case thrown (env (n + iterations env (Suc n) fuel)) of
                       Some err \<Rightarrow> Inl err | None \<Rightarrow> Inr ()))"

text \<open>
  The attempts of a job, from the attempt that starts at trace position \<open>n\<close> after
  \<open>retryCount\<close> retries: \<open>ks\<close> lists the number of page requests of each attempt.
  An attempt makes the page requests the backend leads it to; when it ends with an
  exception and fewer than \<open>maxRetries\<close> retries were made, a further attempt follows,
  which starts after the events of this attempt and the timer; in every other case the
  attempt is the last one.
\<close>

fun attempts_from :: "nat \<Rightarrow> 'm env \<Rightarrow> nat \<Rightarrow> nat \<Rightarrow> nat list \<Rightarrow> bool" where
  "attempts_from fuel env retryCount n [] = False"
| "attempts_from fuel env retryCount n (k # ks) =
     (k = attempt_pages fuel env n \<and>
      (if (case attempt_result fuel env n of
             Some (Inl err) \<Rightarrow> retryCount < maxRetries | _ \<Rightarrow> False)
       then attempts_from fuel env (retryCount + 1) (n + k + 2) ks
       else ks = []))"

text \<open>
  The events of a job whose attempts asked for \<open>ks\<close> pages: the attempts in order,
  with a timer of two seconds between one attempt and the next.
\<close>

fun job_events :: "nat list \<Rightarrow> event list" where
  "job_events [] = []"
| "job_events [k] = attempt_events k"
| "job_events (k # ks) = attempt_events k @ Sleep 2000 # job_events ks"

text \<open>The state in which a retry starts: the notice is shown and the timer has run.\<close>

definition retry_state :: "nat \<Rightarrow> 'm state \<Rightarrow> 'm state" where
  "retry_state retryCount s1 =
     s1\<lparr>error_state :=
          Some (''Retrying... Attempt '' @ decimal (retryCount + 1)
                @ '' of '' @ decimal maxRetries),
        trace := trace s1 @ [Sleep 2000]\<rparr>"

text \<open>
  What a pass through the loop body logs as progress when \<open>fetched\<close> members were
  collected before it, and what the loop logs from trace position \<open>n\<close> on.
\<close>

definition pass_progress :: "nat \<Rightarrow> nat \<Rightarrow> exn + 'm MembersResponse \<Rightarrow> jsnum list" where
  "pass_progress fetched totalMembers r =
     (case r of Inl err \<Rightarrow> []
      | Inr response \<Rightarrow>
          if \<not> success response then []
          else if data response = [] then [Fin 100]
          else [progress_of (fetched + length (data response)) totalMembers])"

fun loop_progress :: "'m env \<Rightarrow> nat \<Rightarrow> nat \<Rightarrow> nat \<Rightarrow> nat \<Rightarrow> jsnum list" where
  "loop_progress env totalMembers fetched n 0 = []"
| "loop_progress env totalMembers fetched n (Suc fuel) =
     pass_progress fetched totalMembers (env n) @
     (if continues (env n)
      then loop_progress env totalMembers (fetched + length (page_data (env n))) (Suc n) fuel
      else [])"

text \<open>A progress value that is an integer between \<open>0\<close> and \<open>100\<close>.\<close>

fun is_percent :: "jsnum \<Rightarrow> bool" where
  "is_percent (Fin r) = (of_int \<lfloor>r\<rfloor> = r \<and> 0 \<le> r \<and> r \<le> 100)"
| "is_percent PosInf = False"
| "is_percent NaN = False"

text \<open>
  Since the state whose progress log was \<open>old\<close>, progress has been set at least once,
  to percentages only, and \<open>fetchProgress\<close> is the value set last.
\<close>

definition percent_since :: "jsnum list \<Rightarrow> 'm state \<Rightarrow> bool" where
  "percent_since old s =
     (\<exists>new. progress_log s = old @ new \<and> new \<noteq> [] \<and> list_all is_percent new \<and>
            fetchProgress s = last new)"

text \<open>
  A scripted backend, for the examples: the outcomes \<open>rs\<close> in order, then \<open>d\<close> for
  every later request.
\<close>

definition scripted :: "(exn + 'm MembersResponse) list \<Rightarrow> exn + 'm MembersResponse \<Rightarrow> 'm env" where
  "scripted rs d n = (if n < length rs then rs ! n else d)"

definition ok_page :: "'m list \<Rightarrow> nat option \<Rightarrow> bool \<Rightarrow> exn + 'm MembersResponse" where
  "ok_page ms tc hm =
     Inr \<lparr>success = True, data = ms, error = None, total_count = tc, has_more = hm\<rparr>"

definition failure :: "string \<Rightarrow> exn + 'm MembersResponse" where
  "failure m = Inl (new_Error m)"

text \<open>
  A backend on which the first attempt collects a page and then fails, the second fails
  at once and the third succeeds with two pages.  The outcomes at the positions \<open>3\<close>
  and \<open>5\<close> are never asked for: the timer fills these positions of the trace.
\<close>

definition env_third_time :: "nat env" where
  "env_third_time =
     scripted
       [ok_page [1] (Some 3) True, ok_page [1, 2] (Some 3) True, failure ''Network Error'',
        failure ''unused'',
        failure ''Network Error'',
        failure ''unused'',
        ok_page [7] (Some 3) True, ok_page [7, 8] (Some 3) True, ok_page [9] (Some 3) False]
       (failure ''Network Error'')"

text \<open>
  A backend for a group of \<open>120\<close> members, served in pages of \<open>50\<close>, \<open>50\<close> and
  \<open>20\<close>; the first response answers the request for the count.
\<close>

definition env_120 :: "nat env" where
  "env_120 =
     scripted
       [ok_page [0] (Some 120) True,
        ok_page [0..<50] (Some 120) True,
        ok_page [50..<100] (Some 120) True,
        ok_page [100..<120] (Some 120) False]
       (failure ''Network Error'')"

text \<open>
  A backend whose first page is full and says \<open>has_more = false\<close> although the group
  has \<open>120\<close> members.
\<close>

definition env_says_no_more :: "nat env" where
  "env_says_no_more n = ok_page [0..<50] (Some 120) False"

text \<open>
  The error text the backend sent with a failed \<open>/api/parse-group\<close>, if it sent one,
  and a failed response that carries the text of an entity that was not found.
\<close>

definition server_error_text :: "exn + GroupInfo ApiResponse \<Rightarrow> string option" where
  "server_error_text parse =
     (case parse of
        Inl err \<Rightarrow> (case response_error err of None \<Rightarrow> None | Some e \<Rightarrow> e)
      | Inr response \<Rightarrow> if success response then None else error response)"

definition parse_failed :: "exn + GroupInfo ApiResponse \<Rightarrow> bool" where
  "parse_failed parse = (case parse of Inl err \<Rightarrow> True | Inr response \<Rightarrow> \<not> success response)"

definition entity_not_found :: "exn + GroupInfo ApiResponse" where
  "entity_not_found =
     Inr \<lparr>success = False,
          data = \<lparr>group_id = [], name = [], member_count = None, description = None\<rparr>,
          error = Some ''Could not find the input entity for PeerChannel''\<rparr>"

text \<open>A backend that rejects every request, and one whose pages never end.\<close>

definition env_always_fails :: "nat env" where
  "env_always_fails n = failure ''Network Error''"

definition env_never_ends :: "nat env" where
  "env_never_ends n = ok_page [n] None True"

section \<open>The credential pool\<close>

text \<open>
  The component \<open>TokenPoolStatus\<close> shows what \<open>/api/pool-status\<close> answers.  The
  interfaces \<open>TokenStatus\<close> and \<open>PoolStatus\<close> are the source's; a cooldown time is a
  number here (the source carries it as a date string).  The pool that computes the
  answer is part of the backend and is not among the sources: the definitions below that
  say so are modelled from the specification.
\<close>

datatype token_state = Available | Cooldown

record TokenStatus =
  token_id :: string
  status :: token_state
  error_count :: nat
  cooldown_until :: "nat option"

record PoolStatus =
  total_tokens :: nat
  active_tokens :: nat
  tokens :: "TokenStatus list"

text \<open>
  Modelled from the spec: the record \<open>Credential\<close> of the data model, which the backend
  keeps per bot token.  It has the fields of the view and the secret.
\<close>

record Credential = TokenStatus +
  secret :: string

text \<open>
  Modelled from the spec: the outcome a credential is released with; the hint
  \<open>retry_after\<close> of a rate limit may be absent.
\<close>

datatype outcome = Success | RateLimited "nat option" | Failure

text \<open>
  Modelled from the spec: the static configuration of the pool.  The specification fixes
  neither the threshold of errors nor the backoff, so both are parameters.
\<close>

record pool_config =
  credentials :: "(string \<times> string) list"
  threshold :: nat
  backoff :: "nat \<Rightarrow> nat"

text \<open>
  Modelled from the spec: the pool created at process start, every credential
  \<open>Available\<close> with no error and no cooldown.
\<close>

definition initial_pool :: "pool_config \<Rightarrow> Credential list" where
  "initial_pool cfg =
     map (\<lambda>(i, k). \<lparr>token_id = i, status = Available, error_count = 0,
                     cooldown_until = None, secret = k\<rparr>) (credentials cfg)"

text \<open>
  Modelled from the spec: lazy cooldown expiry.  A credential whose \<open>cooldown_until\<close>
  has passed is treated as \<open>Available\<close>, and its cooldown is over.
\<close>

definition expire :: "nat \<Rightarrow> Credential \<Rightarrow> Credential" where
  "expire now c =
     (case cooldown_until c of
        None \<Rightarrow> c
      | Some t \<Rightarrow> if t \<le> now then c\<lparr>status := Available, cooldown_until := None\<rparr> else c)"

text \<open>
  Modelled from the spec: \<open>acquire\<close> evaluates the expiry first and selects a
  credential that is \<open>Available\<close> (the first one here: the specification leaves the
  tie-break open), or fails with \<open>NoCredentialAvailable\<close> (the result \<open>None\<close>).
\<close>

definition acquire :: "nat \<Rightarrow> Credential list \<Rightarrow> Credential option \<times> Credential list" where
  "acquire now pool =
     (let pool' = map (expire now) pool
      in (find (\<lambda>c. status c = Available) pool', pool'))"

text \<open>
  Modelled from the spec: \<open>release\<close> of one credential with an outcome, at the time
  \<open>now\<close>.  \<open>Success\<close>: the credential returns to \<open>Available\<close> (out of any cooldown) and
  its error count is reset.  \<open>RateLimited\<close>: \<open>Cooldown\<close> until \<open>now + retry_after\<close>, the
  hint of the platform or the default backoff scaled by the error count, and the error
  count is incremented.  An error: the error count is incremented, and when it exceeds
  the threshold the credential moves to \<open>Cooldown\<close> with the computed backoff; otherwise
  it stays as it is.
\<close>

fun release_credential :: "pool_config \<Rightarrow> nat \<Rightarrow> outcome \<Rightarrow> Credential \<Rightarrow> Credential" where
  "release_credential cfg now Success c =
     c\<lparr>status := Available, error_count := 0, cooldown_until := None\<rparr>"
| "release_credential cfg now (RateLimited retry_after) c =
     c\<lparr>status := Cooldown,
       cooldown_until :=
         Some (now + (case retry_after of Some r \<Rightarrow> r | None \<Rightarrow> backoff cfg (error_count c))),
       error_count := error_count c + 1\<rparr>"
| "release_credential cfg now Failure c =
     (if error_count c + 1 > threshold cfg
      then c\<lparr>status := Cooldown,
             cooldown_until := Some (now + backoff cfg (error_count c + 1)),
             error_count := error_count c + 1\<rparr>
      else c\<lparr>error_count := error_count c + 1\<rparr>)"

text \<open>Modelled from the spec: \<open>release\<close> on the pool, the credential named by its id.\<close>

definition release :: "pool_config \<Rightarrow> nat \<Rightarrow> string \<Rightarrow> outcome \<Rightarrow> Credential list \<Rightarrow> Credential list" where
  "release cfg now i out pool =
     map (\<lambda>c. if token_id c = i then release_credential cfg now out c else c) pool"

text \<open>
  Modelled from the spec: \<open>snapshot\<close>, the view of every credential with the cooldown
  expiry applied; it reads the pool and does not change it.
\<close>

definition snapshot :: "nat \<Rightarrow> Credential list \<Rightarrow> TokenStatus list" where
  "snapshot now pool = map (\<lambda>c. TokenStatus.truncate (expire now c)) pool"

text \<open>
  Modelled from the spec: \<open>GetPoolStatus\<close>.  \<open>total_tokens\<close> is the number of
  credentials, \<open>active_tokens\<close> the number of those \<open>Available\<close> after the expiry, and
  \<open>tokens\<close> the snapshot.
\<close>

definition GetPoolStatus :: "nat \<Rightarrow> Credential list \<Rightarrow> PoolStatus" where
  "GetPoolStatus now pool =
     \<lparr>total_tokens = length pool,
      active_tokens = length (filter (\<lambda>v. status v = Available) (snapshot now pool)),
      tokens = snapshot now pool\<rparr>"

text \<open>
  Modelled from the spec: the operations that change the pool, each with the time it
  happens at, and the pool after a sequence of them.
\<close>

datatype pool_op = Acquire nat | Release nat string outcome

fun pool_step :: "pool_config \<Rightarrow> Credential list \<Rightarrow> pool_op \<Rightarrow> Credential list" where
  "pool_step cfg pool (Acquire now) = snd (acquire now pool)"
| "pool_step cfg pool (Release now i out) = release cfg now i out pool"

definition run_pool :: "pool_config \<Rightarrow> pool_op list \<Rightarrow> Credential list" where
  "run_pool cfg ops = foldl (pool_step cfg) (initial_pool cfg) ops"

text \<open>
  Whether the cooldown of a credential is over at the time \<open>now\<close>: it is null or has
  elapsed.
\<close>

definition cooldown_over :: "nat \<Rightarrow> Credential \<Rightarrow> bool" where
  "cooldown_over now c =
     (case cooldown_until c of None \<Rightarrow> True | Some t \<Rightarrow> t \<le> now)"

text \<open>
  The stored state of a credential is consistent: it is \<open>Available\<close> exactly when it
  has no cooldown time.
\<close>

definition stored_ok :: "Credential \<Rightarrow> bool" where
  "stored_ok c \<longleftrightarrow> (status c = Available \<longleftrightarrow> cooldown_until c = None)"

text \<open>
  A pool of two bot tokens, for the examples, and two releases that send both into
  cooldown at the time \<open>10\<close>, until \<open>15\<close> and until \<open>10\<close>.
\<close>

definition both_rate_limited :: "pool_op list" where
  "both_rate_limited =
     [Release 10 ''bot1'' (RateLimited (Some 5)), Release 10 ''bot2'' (RateLimited None)]"

definition two_tokens :: pool_config where
  "two_tokens =
     \<lparr>credentials = [(''bot1'', ''secret1''), (''bot2'', ''secret2'')],
      threshold = 3,
      backoff = (\<lambda>n. 30 * n)\<rparr>"

section \<open>Properties of the display pagination\<close>

lemma getCurrentPageMembers_take_drop:
  assumes "1 \<le> currentPage s"
  shows "getCurrentPageMembers s = take 50 (drop (nat ((currentPage s - 1) * 50)) (allMembers s))"
proof -
  let ?k = "(currentPage s - 1) * 50"
  let ?xs = "allMembers s"
  have k0: "0 \<le> ?k" using assms by simp
  show ?thesis
  proof (cases "?k \<le> int (length ?xs)")
    case True
    then have "take (nat (min (?k + 50) (int (length ?xs)) - ?k)) (drop (nat ?k) ?xs)
             = take 50 (drop (nat ?k) ?xs)"
      using k0 by (cases "?k + 50 \<le> int (length ?xs)") (simp_all add: min_def)
    then show ?thesis
      using True k0 by (simp add: getCurrentPageMembers_def js_slice_def MEMBERS_PER_PAGE_def min_def)
  next
    case False
    then show ?thesis
      using k0 by (simp add: getCurrentPageMembers_def js_slice_def MEMBERS_PER_PAGE_def min_def)
  qed
qed

lemma concat_chunks:
  "concat (map (\<lambda>i. take n (drop (i * n) xs)) [0..<k]) = take (k * n) xs"
proof (induction k)
  case 0
  show ?case by simp
next
  case (Suc k)
  have "take (k * n) xs @ take n (drop (k * n) xs) = take (k * n + n) xs"
    by (simp add: take_add)
  with Suc show ?case by (simp add: add.commute)
qed

lemma ceiling_div_50: "\<lceil>(of_int (int n) :: rat) / of_int 50\<rceil> = - ((- int n) div 50)"
  by (rule ceiling_divide_eq_div)

lemma totalPages_div: "totalPages s = (length (allMembers s) + 49) div 50"
proof -
  let ?n = "length (allMembers s)"
  have "(of_nat ?n :: rat) = of_int (int ?n)" by simp
  then have "\<lceil>(of_nat ?n :: rat) / of_int 50\<rceil> = - ((- int ?n) div 50)"
    by (simp only: ceiling_div_50)
  also have "\<dots> = (int ?n + 49) div 50" by linarith
  also have "\<dots> = int ((?n + 49) div 50)" by (simp add: zdiv_int)
  finally have "nat \<lceil>(of_nat ?n :: rat) / of_int 50\<rceil> = (?n + 49) div 50"
    by (simp only: nat_int)
  then show ?thesis
    by (simp only: totalPages_def MEMBERS_PER_PAGE_def)
qed

lemma take_drop_nth:
  "take n (drop m xs) = map (nth xs) [m ..< min (m + n) (length xs)]"
proof (rule nth_equalityI)
  show "length (take n (drop m xs)) = length (map (nth xs) [m ..< min (m + n) (length xs)])"
    by (auto simp: min_def)
next
  fix i
  assume "i < length (take n (drop m xs))"
  then have i: "i < n" "m + i < length xs"
    by auto
  then have "i < min (m + n) (length xs) - m"
    by simp
  then have "map (nth xs) [m ..< min (m + n) (length xs)] ! i = xs ! (m + i)"
    by (rule nth_map_upt)
  with i show "take n (drop m xs) ! i = map (nth xs) [m ..< min (m + n) (length xs)] ! i"
    by simp
qed

lemma pages_concat:
  "concat (map (\<lambda>p. getCurrentPageMembers (s\<lparr>currentPage := int p\<rparr>)) [1..<Suc (totalPages s)])
     = allMembers s"
proof -
  let ?k = "totalPages s"
  let ?xs = "allMembers s"
  have shift: "[1..<Suc ?k] = map Suc [0..<?k]"
    by (simp add: map_Suc_upt)
  have page: "getCurrentPageMembers (s\<lparr>currentPage := int (Suc i)\<rparr>) = take 50 (drop (i * 50) ?xs)" for i
    using getCurrentPageMembers_take_drop [of "s\<lparr>currentPage := int (Suc i)\<rparr>"]
    by (simp add: nat_mult_distrib)
  have "concat (map (\<lambda>p. getCurrentPageMembers (s\<lparr>currentPage := int p\<rparr>)) [1..<Suc ?k])
      = concat (map (\<lambda>i. take 50 (drop (i * 50) ?xs)) [0..<?k])"
    unfolding shift map_map comp_def page ..
  also have "\<dots> = take (?k * 50) ?xs"
    by (rule concat_chunks)
  also have "\<dots> = ?xs"
  proof -
    have "length ?xs \<le> ((length ?xs + 49) div 50) * 50" by presburger
    then show ?thesis by (simp add: totalPages_div)
  qed
  finally show ?thesis .
qed

text \<open>
  C10.  Client-side display pagination partitions the collected member list: for every
  member list and every page number \<open>p \<ge> 1\<close>, \<open>getCurrentPageMembers\<close> returns
  exactly the elements of \<open>allMembers\<close> at the indices from \<open>(p - 1) * 50\<close> up to but
  excluding \<open>p * 50\<close> (as far as the list reaches), and concatenating the pages
  \<open>1\<close> through \<open>ceil (|allMembers| / 50)\<close> gives \<open>allMembers\<close> back: no member is
  repeated or dropped.
\<close>

theorem display_pagination_partitions:
  "(1 \<le> currentPage s \<longrightarrow>
      getCurrentPageMembers s =
        map (nth (allMembers s))
          [nat ((currentPage s - 1) * 50) ..<
             min (nat (currentPage s * 50)) (length (allMembers s))]) \<and>
   concat (map (\<lambda>p. getCurrentPageMembers (s\<lparr>currentPage := int p\<rparr>))
             [1..<Suc (totalPages s)]) = allMembers s"
proof (intro conjI impI)
  assume p: "1 \<le> currentPage s"
  have "nat ((currentPage s - 1) * 50) + 50 = nat (currentPage s * 50)"
    using p by (simp add: nat_add_distrib algebra_simps nat_diff_distrib)
  then show "getCurrentPageMembers s =
        map (nth (allMembers s))
          [nat ((currentPage s - 1) * 50) ..<
             min (nat (currentPage s * 50)) (length (allMembers s))]"
    using getCurrentPageMembers_take_drop [OF p]
    by (simp add: take_drop_nth)
next
  show "concat (map (\<lambda>p. getCurrentPageMembers (s\<lparr>currentPage := int p\<rparr>))
             [1..<Suc (totalPages s)]) = allMembers s"
    by (rule pages_concat)
qed

theorem display_pagination_partitions_witness:
  "(1::int) \<le> 3 \<and>
   getCurrentPageMembers (initial_state\<lparr>allMembers := [0..<120], currentPage := 3\<rparr>)
     = [100..<120] \<and>
   totalPages (initial_state\<lparr>allMembers := [0..<120], currentPage := 3\<rparr>) = 3 \<and>
   concat (map (\<lambda>p. getCurrentPageMembers (initial_state\<lparr>allMembers := [0..<120], currentPage := int p\<rparr>))
             [1..<Suc 3]) = [0..<120]"
proof -
  let ?s = "initial_state\<lparr>allMembers := [0..<120], currentPage := 3\<rparr> :: nat state"
  have tp: "totalPages ?s = 3"
    by (simp add: totalPages_div)
  have "getCurrentPageMembers ?s = map (nth [0..<120]) [100..<120]"
    using display_pagination_partitions [of ?s] by simp
  also have "\<dots> = [100..<120]"
    by (rule nth_equalityI) simp_all
  finally show ?thesis
    using tp display_pagination_partitions [of ?s] by simp
qed

section \<open>The fetch loop\<close>

lemma loop_body_trace:
  "trace (snd (fst (loop_body env t (l, s)))) = trace s @ [Get (currentOffset l) batchSize]"
  by (simp add: loop_body_def Let_def setFetchProgress_def split: sum.split)

lemma loop_body_fetched:
  "allFetchedMembers (fst (fst (loop_body env t (l, s))))
     = allFetchedMembers l @ page_data (env (length (trace s)))"
  by (simp add: loop_body_def Let_def page_data_def split: sum.split)

lemma loop_body_continues:
  "(snd (loop_body env t (l, s)) = None \<and> hasMore (fst (fst (loop_body env t (l, s)))))
     = continues (env (length (trace s)))"
  by (auto simp add: loop_body_def Let_def continues_def split: sum.split)

lemma loop_body_offset:
  "currentOffset (fst (fst (loop_body env t (l, s))))
     = (if page_data (env (length (trace s))) = [] then currentOffset l
        else currentOffset l + batchSize)"
  by (simp add: loop_body_def Let_def page_data_def split: sum.split)

lemma loop_body_frame:
  "allMembers (snd (fst (loop_body env t (l, s)))) = allMembers s"
  "error_state (snd (fst (loop_body env t (l, s)))) = error_state s"
  "loading (snd (fst (loop_body env t (l, s)))) = loading s"
  "loadingMembers (snd (fst (loop_body env t (l, s)))) = loadingMembers s"
  "groupInfo (snd (fst (loop_body env t (l, s)))) = groupInfo s"
  "currentPage (snd (fst (loop_body env t (l, s)))) = currentPage s"
  by (simp_all add: loop_body_def Let_def setFetchProgress_def split: sum.split)

lemma while_loop_exit:
  "\<not> hasMore (fst ls) \<Longrightarrow> while_loop fuel env t ls = (ls, Some (Inr ()))"
  by (cases fuel) simp_all

lemma while_loop_continue:
  assumes "hasMore l" and "continues (env (length (trace s)))"
  shows "while_loop (Suc fuel) env t (l, s) = while_loop fuel env t (fst (loop_body env t (l, s)))"
proof -
  obtain ls' e where b: "loop_body env t (l, s) = (ls', e)"
    by (cases "loop_body env t (l, s)")
  with loop_body_continues [of env t l s] assms have "e = None"
    by simp
  with b assms show ?thesis by simp
qed

lemma while_loop_stop:
  assumes "hasMore l" and "\<not> continues (env (length (trace s)))"
  shows "while_loop (Suc fuel) env t (l, s) =
           (fst (loop_body env t (l, s)),
            Some (case snd (loop_body env t (l, s)) of Some err \<Rightarrow> Inl err | None \<Rightarrow> Inr ()))"
proof -
  obtain ls' e where b: "loop_body env t (l, s) = (ls', e)"
    by (cases "loop_body env t (l, s)")
  show ?thesis
  proof (cases e)
    case None
    with loop_body_continues [of env t l s] assms b have "\<not> hasMore (fst ls')"
      by simp
    with b None assms show ?thesis
      by (simp add: while_loop_exit)
  next
    case (Some err)
    with b assms show ?thesis by simp
  qed
qed

lemma page_requests_Suc:
  "page_requests off (Suc k) = Get off batchSize # page_requests (off + batchSize) k"
  by (simp only: page_requests_def map_upt_Suc) simp

lemma pages_Suc: "pages env n (Suc k) = page_data (env n) @ pages env (Suc n) k"
  by (simp only: pages_def map_upt_Suc) simp

lemma while_loop_trace:
  "hasMore l \<Longrightarrow>
   trace (snd (fst (while_loop fuel env t (l, s))))
     = trace s @ page_requests (currentOffset l) (iterations env (length (trace s)) fuel)"
proof (induction fuel arbitrary: l s)
  case 0
  then show ?case by (simp add: page_requests_def)
next
  case (Suc fuel)
  obtain l1 s1 where ls1: "fst (loop_body env t (l, s)) = (l1, s1)"
    by (cases "fst (loop_body env t (l, s))")
  have tr: "trace s1 = trace s @ [Get (currentOffset l) batchSize]"
    using loop_body_trace [of env t l s] ls1 by simp
  show ?case
  proof (cases "continues (env (length (trace s)))")
    case True
    then have h1: "hasMore l1" and off: "currentOffset l1 = currentOffset l + batchSize"
      using loop_body_continues [of env t l s] loop_body_offset [of env t l s] ls1
      by (auto simp: continues_def page_data_def split: sum.splits)
    from Suc.IH [OF h1, of s1] True Suc.prems ls1 tr off show ?thesis
      by (simp add: while_loop_continue page_requests_Suc del: while_loop.simps)
  next
    case False
    with Suc.prems ls1 tr show ?thesis
      by (simp add: while_loop_stop page_requests_Suc page_requests_def del: while_loop.simps)
  qed
qed

lemma while_loop_invariant:
  assumes "I ls" and "\<And>ls. I ls \<Longrightarrow> I (fst (loop_body env t ls))"
  shows "I (fst (while_loop fuel env t ls))"
  using assms(1)
proof (induction fuel arbitrary: ls)
  case 0
  then show ?case by simp
next
  case (Suc fuel)
  then show ?case
    using assms(2) [of ls]
    by (cases "loop_body env t ls") (auto split: option.split)
qed

lemma while_loop_frame:
  "allMembers (snd (fst (while_loop fuel env t (l, s)))) = allMembers s \<and>
   error_state (snd (fst (while_loop fuel env t (l, s)))) = error_state s \<and>
   loading (snd (fst (while_loop fuel env t (l, s)))) = loading s \<and>
   loadingMembers (snd (fst (while_loop fuel env t (l, s)))) = loadingMembers s \<and>
   groupInfo (snd (fst (while_loop fuel env t (l, s)))) = groupInfo s \<and>
   currentPage (snd (fst (while_loop fuel env t (l, s)))) = currentPage s"
proof (rule while_loop_invariant
    [where I = "\<lambda>ls. allMembers (snd ls) = allMembers s \<and> error_state (snd ls) = error_state s \<and>
        loading (snd ls) = loading s \<and> loadingMembers (snd ls) = loadingMembers s \<and>
        groupInfo (snd ls) = groupInfo s \<and> currentPage (snd ls) = currentPage s"])
  show "allMembers (snd (l, s)) = allMembers s \<and> error_state (snd (l, s)) = error_state s \<and>
        loading (snd (l, s)) = loading s \<and> loadingMembers (snd (l, s)) = loadingMembers s \<and>
        groupInfo (snd (l, s)) = groupInfo s \<and> currentPage (snd (l, s)) = currentPage s"
    by simp
next
  fix ls :: "'a locals \<times> 'a state"
  assume "allMembers (snd ls) = allMembers s \<and> error_state (snd ls) = error_state s \<and>
        loading (snd ls) = loading s \<and> loadingMembers (snd ls) = loadingMembers s \<and>
        groupInfo (snd ls) = groupInfo s \<and> currentPage (snd ls) = currentPage s"
  then show "allMembers (snd (fst (loop_body env t ls))) = allMembers s \<and>
        error_state (snd (fst (loop_body env t ls))) = error_state s \<and>
        loading (snd (fst (loop_body env t ls))) = loading s \<and>
        loadingMembers (snd (fst (loop_body env t ls))) = loadingMembers s \<and>
        groupInfo (snd (fst (loop_body env t ls))) = groupInfo s \<and>
        currentPage (snd (fst (loop_body env t ls))) = currentPage s"
    using loop_body_frame [of env t "fst ls" "snd ls"] by simp
qed

lemma while_loop_fetched:
  "hasMore l \<Longrightarrow>
   allFetchedMembers (fst (fst (while_loop fuel env t (l, s))))
     = allFetchedMembers l @ pages env (length (trace s)) (iterations env (length (trace s)) fuel)"
proof (induction fuel arbitrary: l s)
  case 0
  then show ?case by (simp add: pages_def)
next
  case (Suc fuel)
  obtain l1 s1 where ls1: "fst (loop_body env t (l, s)) = (l1, s1)"
    by (cases "fst (loop_body env t (l, s))")
  have tr: "trace s1 = trace s @ [Get (currentOffset l) batchSize]"
    using loop_body_trace [of env t l s] ls1 by simp
  have fe: "allFetchedMembers l1 = allFetchedMembers l @ page_data (env (length (trace s)))"
    using loop_body_fetched [of env t l s] ls1 by simp
  show ?case
  proof (cases "continues (env (length (trace s)))")
    case True
    then have h1: "hasMore l1"
      using loop_body_continues [of env t l s] ls1 by auto
    from Suc.IH [OF h1, of s1] True Suc.prems ls1 tr fe show ?thesis
      by (simp add: while_loop_continue pages_Suc del: while_loop.simps)
  next
    case False
    with Suc.prems ls1 fe show ?thesis
      by (simp add: while_loop_stop pages_def del: while_loop.simps)
  qed
qed

lemma loop_body_thrown:
  "snd (loop_body env t (l, s)) = thrown (env (length (trace s)))"
  by (simp add: loop_body_def Let_def thrown_def split: sum.split)

lemma while_loop_result:
  "hasMore l \<Longrightarrow>
   snd (while_loop fuel env t (l, s)) =
     (if \<forall>i<fuel. continues (env (length (trace s) + i)) then None
      else Some (case thrown (env (length (trace s) + iterations env (length (trace s)) fuel - 1)) of
                   Some err \<Rightarrow> Inl err | None \<Rightarrow> Inr ()))"
proof (induction fuel arbitrary: l s)
  case 0
  then show ?case by simp
next
  case (Suc fuel)
  obtain l1 s1 where ls1: "fst (loop_body env t (l, s)) = (l1, s1)"
    by (cases "fst (loop_body env t (l, s))")
  have tr: "trace s1 = trace s @ [Get (currentOffset l) batchSize]"
    using loop_body_trace [of env t l s] ls1 by simp
  show ?case
  proof (cases "continues (env (length (trace s)))")
    case True
    then have h1: "hasMore l1"
      using loop_body_continues [of env t l s] ls1 by auto
    have all: "(\<forall>i<Suc fuel. continues (env (length (trace s) + i)))
        = (\<forall>i<fuel. continues (env (Suc (length (trace s)) + i)))"
      using True by (auto simp: less_Suc_eq_0_disj)
    have pos: "fuel \<noteq> 0 \<Longrightarrow> 0 < iterations env (Suc (length (trace s))) fuel"
      by (cases fuel) simp_all
    have idx: "\<not> (\<forall>i<fuel. continues (env (Suc (length (trace s)) + i))) \<Longrightarrow>
        length (trace s) + Suc (iterations env (Suc (length (trace s))) fuel) - 1
        = Suc (length (trace s)) + iterations env (Suc (length (trace s))) fuel - 1"
      using pos by (cases "fuel = 0") auto
    from Suc.IH [OF h1, of s1] True Suc.prems ls1 tr show ?thesis
      unfolding all
      by (auto simp add: while_loop_continue idx simp del: while_loop.simps)
  next
    case False
    then have "\<not> (\<forall>i<Suc fuel. continues (env (length (trace s) + i)))"
      by force
    with False Suc.prems show ?thesis
      by (simp add: while_loop_stop loop_body_thrown del: while_loop.simps)
  qed
qed

lemma filter_upt_Suc:
  "length (filter P [0..<Suc k]) = (if P 0 then 1 else 0) + length (filter (\<lambda>i. P (Suc i)) [0..<k])"
proof -
  have "[0..<Suc k] = 0 # map Suc [0..<k]"
    by (simp only: upt_conv_Cons [of 0 "Suc k"] map_Suc_upt)
  then show ?thesis
    by (simp add: filter_map comp_def)
qed

lemma while_loop_offset:
  "hasMore l \<Longrightarrow>
   currentOffset (fst (fst (while_loop fuel env t (l, s))))
     = currentOffset l + batchSize *
         length (filter (\<lambda>i. page_data (env (length (trace s) + i)) \<noteq> [])
                   [0..<iterations env (length (trace s)) fuel])"
proof (induction fuel arbitrary: l s)
  case 0
  then show ?case by simp
next
  case (Suc fuel)
  obtain l1 s1 where ls1: "fst (loop_body env t (l, s)) = (l1, s1)"
    by (cases "fst (loop_body env t (l, s))")
  have tr: "trace s1 = trace s @ [Get (currentOffset l) batchSize]"
    using loop_body_trace [of env t l s] ls1 by simp
  have off: "currentOffset l1 = (if page_data (env (length (trace s))) = [] then currentOffset l
        else currentOffset l + batchSize)"
    using loop_body_offset [of env t l s] ls1 by simp
  show ?case
  proof (cases "continues (env (length (trace s)))")
    case True
    then have h1: "hasMore l1"
      using loop_body_continues [of env t l s] ls1 by auto
    have ne: "page_data (env (length (trace s))) \<noteq> []"
      using True by (auto simp: continues_def page_data_def split: sum.splits)
    from Suc.IH [OF h1, of s1] True Suc.prems ls1 tr off ne show ?thesis
      by (simp add: while_loop_continue filter_upt_Suc del: while_loop.simps upt_Suc)
  next
    case False
    with Suc.prems ls1 off show ?thesis
      by (simp add: while_loop_stop del: while_loop.simps)
  qed
qed

lemma iterations_stops:
  assumes "\<not> (\<forall>i<fuel. continues (env (n + i)))"
  shows "1 \<le> iterations env n fuel \<and>
         stops (env (n + iterations env n fuel - 1)) \<and>
         (\<forall>i. Suc i < iterations env n fuel \<longrightarrow> continues (env (n + i)))"
  using assms
proof (induction fuel arbitrary: n)
  case 0
  then show ?case by simp
next
  case (Suc fuel)
  show ?case
  proof (cases "continues (env n)")
    case False
    then show ?thesis by (simp add: stops_def)
  next
    case True
    have "\<not> (\<forall>i<fuel. continues (env (Suc n + i)))"
    proof
      assume a: "\<forall>i<fuel. continues (env (Suc n + i))"
      have "continues (env (n + i))" if "i < Suc fuel" for i
        using that True a by (cases i) simp_all
      with Suc.prems show False by blast
    qed
    from Suc.IH [OF this] have IH: "1 \<le> iterations env (Suc n) fuel"
        "stops (env (Suc n + iterations env (Suc n) fuel - 1))"
        "\<And>i. Suc i < iterations env (Suc n) fuel \<Longrightarrow> continues (env (Suc n + i))"
      by blast+
    have "continues (env (n + i))" if "Suc i < Suc (iterations env (Suc n) fuel)" for i
      using that True IH(3) [of "i - 1"] by (cases i) simp_all
    moreover have "n + Suc (iterations env (Suc n) fuel) - 1 = Suc n + iterations env (Suc n) fuel - 1"
      using IH(1) by simp
    ultimately show ?thesis
      using True IH(1,2) by simp
  qed
qed

section \<open>One attempt\<close>

lemma try_block_count_fails:
  assumes "thrown (env (length (trace s))) \<noteq> None"
  shows "\<exists>err. try_block fuel env s = (s\<lparr>trace := trace s @ [Get 0 1]\<rparr>, Some (Inl err))"
  using assms by (auto simp: try_block_def thrown_def Let_def split: sum.splits)

lemma try_block_count_ok:
  assumes "env (length (trace s)) = Inr r" and "success r"
    and "W = while_loop fuel env (or_zero (total_count r))
               (\<lparr>allFetchedMembers = [], currentOffset = 0, hasMore = True\<rparr>,
                s\<lparr>trace := trace s @ [Get 0 1]\<rparr>)"
  shows "try_block fuel env s =
    (case snd W of
       None \<Rightarrow> (snd (fst W), None)
     | Some (Inl err) \<Rightarrow> (snd (fst W), Some (Inl err))
     | Some (Inr u) \<Rightarrow>
         ((snd (fst W))\<lparr>allMembers := allFetchedMembers (fst (fst W))\<rparr>, Some (Inr True)))"
  using assms by (simp add: try_block_def Let_def split: prod.split option.split sum.split)

lemma thrown_cases:
  "thrown x = None \<longleftrightarrow> (\<exists>r. x = Inr r \<and> success r)"
  by (cases x) (auto simp: thrown_def)

lemma attempt_pages_fail: "thrown (env n) \<noteq> None \<Longrightarrow> attempt_pages fuel env n = 0"
  by (auto simp: attempt_pages_def thrown_def split: sum.splits)

lemma attempt_pages_ok:
  "env n = Inr r \<Longrightarrow> success r \<Longrightarrow> attempt_pages fuel env n = iterations env (Suc n) fuel"
  by (simp add: attempt_pages_def)

lemma try_block_trace:
  "trace (fst (try_block fuel env s))
     = trace s @ attempt_events (attempt_pages fuel env (length (trace s)))"
proof (cases "thrown (env (length (trace s)))")
  case (Some err)
  then have t: "thrown (env (length (trace s))) \<noteq> None" by simp
  from try_block_count_fails [of env s fuel, OF t] attempt_pages_fail [of env "length (trace s)" fuel, OF t]
  show ?thesis by (auto simp: attempt_events_def page_requests_def)
next
  case None
  then obtain r where r: "env (length (trace s)) = Inr r" "success r"
    by (auto simp: thrown_cases)
  let ?s0 = "s\<lparr>trace := trace s @ [Get 0 1]\<rparr>"
  let ?l0 = "\<lparr>allFetchedMembers = [], currentOffset = 0, hasMore = True\<rparr> :: 'a locals"
  let ?t = "or_zero (total_count r)"
  define W where "W = while_loop fuel env ?t (?l0, ?s0)"
  note tb = try_block_count_ok [OF r W_def]
  have "trace (snd (fst W))
      = trace ?s0 @ page_requests 0 (iterations env (length (trace ?s0)) fuel)"
    unfolding W_def using while_loop_trace [of ?l0 fuel env ?t ?s0] by simp
  then show ?thesis
    using r by (simp add: tb attempt_pages_ok attempt_events_def split: option.split sum.split)
qed

lemma try_block_frame:
  "error_state (fst (try_block fuel env s)) = error_state s \<and>
   loading (fst (try_block fuel env s)) = loading s \<and>
   loadingMembers (fst (try_block fuel env s)) = loadingMembers s \<and>
   groupInfo (fst (try_block fuel env s)) = groupInfo s \<and>
   currentPage (fst (try_block fuel env s)) = currentPage s"
proof (cases "thrown (env (length (trace s)))")
  case (Some err)
  then have t: "thrown (env (length (trace s))) \<noteq> None" by simp
  from try_block_count_fails [of env s fuel, OF t] show ?thesis by auto
next
  case None
  then obtain r where r: "env (length (trace s)) = Inr r" "success r"
    by (auto simp: thrown_cases)
  let ?s0 = "s\<lparr>trace := trace s @ [Get 0 1]\<rparr>"
  let ?l0 = "\<lparr>allFetchedMembers = [], currentOffset = 0, hasMore = True\<rparr> :: 'a locals"
  let ?t = "or_zero (total_count r)"
  define W where "W = while_loop fuel env ?t (?l0, ?s0)"
  note tb = try_block_count_ok [OF r W_def]
  from while_loop_frame [of fuel env ?t ?l0 ?s0] r show ?thesis
    unfolding W_def [symmetric]
    by (simp add: tb split: option.split sum.split)
qed

lemma try_block_members:
  "allMembers (fst (try_block fuel env s)) =
     (if snd (try_block fuel env s) = Some (Inr True)
      then pages env (Suc (length (trace s))) (attempt_pages fuel env (length (trace s)))
      else allMembers s)"
proof (cases "thrown (env (length (trace s)))")
  case (Some err)
  then have t: "thrown (env (length (trace s))) \<noteq> None" by simp
  from try_block_count_fails [of env s fuel, OF t] show ?thesis by auto
next
  case None
  then obtain r where r: "env (length (trace s)) = Inr r" "success r"
    by (auto simp: thrown_cases)
  let ?s0 = "s\<lparr>trace := trace s @ [Get 0 1]\<rparr>"
  let ?l0 = "\<lparr>allFetchedMembers = [], currentOffset = 0, hasMore = True\<rparr> :: 'a locals"
  let ?t = "or_zero (total_count r)"
  define W where "W = while_loop fuel env ?t (?l0, ?s0)"
  note tb = try_block_count_ok [OF r W_def]
  from while_loop_frame [of fuel env ?t ?l0 ?s0] while_loop_fetched [of ?l0 fuel env ?t ?s0] r
  show ?thesis
    unfolding W_def [symmetric]
    by (simp add: tb attempt_pages_ok split: option.split sum.split)
qed

lemma try_block_result:
  "snd (try_block fuel env s) \<noteq> Some (Inr False)"
  by (auto simp: try_block_def Let_def split: sum.splits prod.splits option.splits)




lemma count_thrown_None: "count_thrown x = None \<longleftrightarrow> thrown x = None"
  by (cases x) (auto simp: count_thrown_def thrown_def)

lemma all_continue_list: "list_all P [0..<fuel] \<longleftrightarrow> (\<forall>i<fuel. P i)"
  by (auto simp: list_all_iff)

lemma try_block_attempt_result:
  "snd (try_block fuel env s) =
     (case attempt_result fuel env (length (trace s)) of
        None \<Rightarrow> None
      | Some (Inl err) \<Rightarrow> Some (Inl err)
      | Some (Inr u) \<Rightarrow> Some (Inr True))"
proof (cases "thrown (env (length (trace s)))")
  case (Some e)
  then show ?thesis
    by (auto simp: try_block_def Let_def attempt_result_def count_thrown_def thrown_def
             split: sum.splits if_splits)
next
  case None
  then obtain r where r: "env (length (trace s)) = Inr r" "success r"
    by (auto simp: thrown_cases)
  let ?n = "Suc (length (trace s))"
  let ?s0 = "s\<lparr>trace := trace s @ [Get 0 1]\<rparr>"
  let ?l0 = "\<lparr>allFetchedMembers = [], currentOffset = 0, hasMore = True\<rparr> :: 'a locals"
  let ?t = "or_zero (total_count r)"
  define W where "W = while_loop fuel env ?t (?l0, ?s0)"
  note tb = try_block_count_ok [OF r W_def]
  have ct: "count_thrown (env (length (trace s))) = None"
    using None by (simp add: count_thrown_None)
  show ?thesis
  proof (cases "\<forall>i<fuel. continues (env (?n + i))")
    case True
    then have "snd W = None"
      unfolding W_def using while_loop_result [of ?l0 fuel env ?t ?s0] by simp
    with True ct show ?thesis
      by (simp add: tb attempt_result_def all_continue_list)
  next
    case False
    define j where "j = ?n + iterations env ?n fuel - 1"
    have res: "snd W = Some (case thrown (env j) of Some err \<Rightarrow> Inl err | None \<Rightarrow> Inr ())"
      unfolding W_def j_def using while_loop_result [of ?l0 fuel env ?t ?s0] False by simp
    from iterations_stops [OF False] have "1 \<le> iterations env ?n fuel" by blast
    then have idx: "length (trace s) + iterations env ?n fuel = j"
      unfolding j_def by simp
    have "attempt_result fuel env (length (trace s))
        = Some (case thrown (env j) of Some err \<Rightarrow> Inl err | None \<Rightarrow> Inr ())"
      using False ct unfolding attempt_result_def idx
      by (simp add: all_continue_list)
    with res show ?thesis
      by (cases "thrown (env j)") (simp_all add: tb)
  qed
qed

section \<open>The attempts of a job\<close>

declare attemptFetch.simps [simp del]

lemma attemptFetch_returned:
  "snd (try_block fuel env s) = Some (Inr b) \<Longrightarrow>
   attemptFetch fuel env retryCount s = (fst (try_block fuel env s), Some b)"
  by (cases "try_block fuel env s") (simp add: attemptFetch.simps)

lemma attemptFetch_out_of_fuel:
  "snd (try_block fuel env s) = None \<Longrightarrow>
   attemptFetch fuel env retryCount s = (fst (try_block fuel env s), None)"
  by (cases "try_block fuel env s") (simp add: attemptFetch.simps)

lemma attemptFetch_retry:
  "snd (try_block fuel env s) = Some (Inl err) \<Longrightarrow> retryCount < maxRetries \<Longrightarrow>
   attemptFetch fuel env retryCount s =
     attemptFetch fuel env (retryCount + 1) (retry_state retryCount (fst (try_block fuel env s)))"
  by (cases "try_block fuel env s") (simp add: attemptFetch.simps [of fuel env retryCount s] retry_state_def)

lemma attemptFetch_give_up:
  "snd (try_block fuel env s) = Some (Inl err) \<Longrightarrow> \<not> retryCount < maxRetries \<Longrightarrow>
   attemptFetch fuel env retryCount s =
     ((fst (try_block fuel env s))\<lparr>error_state := Some (final_error err)\<rparr>, Some False)"
  by (cases "try_block fuel env s") (simp add: attemptFetch.simps [of fuel env retryCount s])

lemma try_block_outcomes:
  obtains (out_of_fuel) "snd (try_block fuel env s) = None"
  | (returned) "snd (try_block fuel env s) = Some (Inr True)"
  | (threw) err where "snd (try_block fuel env s) = Some (Inl err)"
proof (cases "snd (try_block fuel env s)")
  case None
  then show ?thesis by (rule out_of_fuel)
next
  case (Some x)
  show ?thesis
  proof (cases x)
    case (Inl err)
    with Some show ?thesis by (auto intro: threw)
  next
    case (Inr b)
    with Some try_block_result [of fuel env s] have "b" by auto
    with Some Inr show ?thesis by (auto intro: returned)
  qed
qed

lemma job_events_Cons: "ks \<noteq> [] \<Longrightarrow> job_events (k # ks) = attempt_events k @ Sleep 2000 # job_events ks"
  by (cases ks) simp_all


lemma attemptFetch_cases:
  assumes "\<And>retryCount s. snd (try_block fuel env s) = None \<Longrightarrow>
             P retryCount s (fst (try_block fuel env s), None)"
    and "\<And>retryCount s. snd (try_block fuel env s) = Some (Inr True) \<Longrightarrow>
             P retryCount s (fst (try_block fuel env s), Some True)"
    and "\<And>retryCount s err. snd (try_block fuel env s) = Some (Inl err) \<Longrightarrow>
             \<not> retryCount < maxRetries \<Longrightarrow>
             P retryCount s ((fst (try_block fuel env s))\<lparr>error_state := Some (final_error err)\<rparr>,
                             Some False)"
    and "\<And>retryCount s err R. snd (try_block fuel env s) = Some (Inl err) \<Longrightarrow>
             retryCount < maxRetries \<Longrightarrow>
             P (retryCount + 1) (retry_state retryCount (fst (try_block fuel env s))) R \<Longrightarrow>
             P retryCount s R"
  shows "P retryCount s (attemptFetch fuel env retryCount s)"
proof (induction "maxRetries - retryCount" arbitrary: retryCount s)
  case 0
  then have rc: "\<not> retryCount < maxRetries" by simp
  show ?case
  proof (cases rule: try_block_outcomes [of fuel env s])
    case out_of_fuel
    then show ?thesis using assms(1) by (simp add: attemptFetch_out_of_fuel)
  next
    case returned
    then show ?thesis using assms(2) by (simp add: attemptFetch_returned)
  next
    case (threw err)
    then show ?thesis using assms(3) rc by (simp add: attemptFetch_give_up)
  qed
next
  case (Suc n)
  then have rc: "retryCount < maxRetries" by simp
  show ?case
  proof (cases rule: try_block_outcomes [of fuel env s])
    case out_of_fuel
    then show ?thesis using assms(1) by (simp add: attemptFetch_out_of_fuel)
  next
    case returned
    then show ?thesis using assms(2) by (simp add: attemptFetch_returned)
  next
    case (threw err)
    have n: "n = maxRetries - (retryCount + 1)"
      using Suc.hyps(2) by simp
    from Suc.hyps(1) [OF n] assms(4) [OF threw rc] threw rc show ?thesis
      by (simp add: attemptFetch_retry)
  qed
qed





lemma length_attempt_events: "length (attempt_events k) = Suc k"
  by (simp add: attempt_events_def page_requests_def)

lemma attempts_from_nonempty: "attempts_from fuel env retryCount n ks \<Longrightarrow> ks \<noteq> []"
  by (cases ks) simp_all

lemma attemptFetch_run:
  "retryCount \<le> maxRetries \<longrightarrow>
   (\<exists>ks. attempts_from fuel env retryCount (length (trace s)) ks \<and>
        length ks + retryCount \<le> Suc maxRetries \<and>
        trace (fst (attemptFetch fuel env retryCount s)) = trace s @ job_events ks \<and>
        (case attempt_result fuel env
                (length (trace (fst (attemptFetch fuel env retryCount s))) - Suc (last ks)) of
           None \<Rightarrow>
             snd (attemptFetch fuel env retryCount s) = None \<and>
             allMembers (fst (attemptFetch fuel env retryCount s)) = allMembers s
         | Some (Inl err) \<Rightarrow>
             snd (attemptFetch fuel env retryCount s) = Some False \<and>
             length ks + retryCount = Suc maxRetries \<and>
             allMembers (fst (attemptFetch fuel env retryCount s)) = allMembers s \<and>
             error_state (fst (attemptFetch fuel env retryCount s)) = Some (final_error err)
         | Some (Inr u) \<Rightarrow>
             snd (attemptFetch fuel env retryCount s) = Some True \<and>
             allMembers (fst (attemptFetch fuel env retryCount s))
               = pages env (length (trace (fst (attemptFetch fuel env retryCount s))) - last ks)
                   (last ks)))"
  (is "?P retryCount s (attemptFetch fuel env retryCount s)")
proof (rule attemptFetch_cases [where P = ?P])
  fix retryCount and s :: "'a state"
  let ?n = "length (trace s)"
  let ?k = "attempt_pages fuel env ?n"
  let ?s1 = "fst (try_block fuel env s)"
  assume tb: "snd (try_block fuel env s) = None"
  then have ar: "attempt_result fuel env ?n = None"
    using try_block_attempt_result [of fuel env s]
    by (cases "attempt_result fuel env ?n") (auto split: sum.splits)
  have tr: "trace ?s1 = trace s @ attempt_events ?k"
    by (rule try_block_trace)
  then have pos: "length (trace ?s1) - Suc ?k = ?n"
    by (simp add: length_attempt_events)
  show "?P retryCount s (?s1, None)"
    using tb ar tr pos
    by (intro impI exI [of _ "[?k]"]) (simp add: try_block_members)
next
  fix retryCount and s :: "'a state"
  let ?n = "length (trace s)"
  let ?k = "attempt_pages fuel env ?n"
  let ?s1 = "fst (try_block fuel env s)"
  assume tb: "snd (try_block fuel env s) = Some (Inr True)"
  then have ar: "attempt_result fuel env ?n = Some (Inr ())"
    using try_block_attempt_result [of fuel env s]
    by (cases "attempt_result fuel env ?n") (auto split: sum.splits)
  have tr: "trace ?s1 = trace s @ attempt_events ?k"
    by (rule try_block_trace)
  then have pos: "length (trace ?s1) - Suc ?k = ?n" "length (trace ?s1) - ?k = Suc ?n"
    by (simp_all add: length_attempt_events)
  show "?P retryCount s (?s1, Some True)"
    using tb ar tr pos
    by (intro impI exI [of _ "[?k]"]) (simp add: try_block_members)
next
  fix retryCount and s :: "'a state" and err
  let ?n = "length (trace s)"
  let ?k = "attempt_pages fuel env ?n"
  let ?s1 = "fst (try_block fuel env s)"
  assume tb: "snd (try_block fuel env s) = Some (Inl err)" and rc: "\<not> retryCount < maxRetries"
  then have ar: "attempt_result fuel env ?n = Some (Inl err)"
    using try_block_attempt_result [of fuel env s]
    by (cases "attempt_result fuel env ?n") (auto split: sum.splits)
  have tr: "trace ?s1 = trace s @ attempt_events ?k"
    by (rule try_block_trace)
  then have pos: "length (trace ?s1) - Suc ?k = ?n"
    by (simp add: length_attempt_events)
  show "?P retryCount s (?s1\<lparr>error_state := Some (final_error err)\<rparr>, Some False)"
    using tb ar tr pos rc
    by (intro impI exI [of _ "[?k]"]) (simp add: try_block_members)
next
  fix retryCount and s :: "'a state" and err and R :: "'a state \<times> bool option"
  let ?n = "length (trace s)"
  let ?k = "attempt_pages fuel env ?n"
  let ?s1 = "retry_state retryCount (fst (try_block fuel env s))"
  assume tb: "snd (try_block fuel env s) = Some (Inl err)" and rc: "retryCount < maxRetries"
    and IH: "?P (retryCount + 1) ?s1 R"
  have ar: "attempt_result fuel env ?n = Some (Inl err)"
    using tb try_block_attempt_result [of fuel env s]
    by (cases "attempt_result fuel env ?n") (auto split: sum.splits)
  have tr: "trace ?s1 = trace s @ attempt_events ?k @ [Sleep 2000]"
    by (simp add: retry_state_def try_block_trace)
  then have len: "length (trace ?s1) = ?n + ?k + 2"
    by (simp add: length_attempt_events)
  have am: "allMembers ?s1 = allMembers s"
    using tb by (simp add: retry_state_def try_block_members)
  from IH rc obtain ks where ks: "attempts_from fuel env (retryCount + 1) (length (trace ?s1)) ks"
      "length ks + (retryCount + 1) \<le> Suc maxRetries"
      "trace (fst R) = trace ?s1 @ job_events ks"
      "case attempt_result fuel env (length (trace (fst R)) - Suc (last ks)) of
           None \<Rightarrow> snd R = None \<and> allMembers (fst R) = allMembers ?s1
         | Some (Inl err) \<Rightarrow>
             snd R = Some False \<and> length ks + (retryCount + 1) = Suc maxRetries \<and>
             allMembers (fst R) = allMembers ?s1 \<and>
             error_state (fst R) = Some (final_error err)
         | Some (Inr u) \<Rightarrow>
             snd R = Some True \<and>
             allMembers (fst R) = pages env (length (trace (fst R)) - last ks) (last ks)"
    by auto
  have ne: "ks \<noteq> []"
    using ks(1) by (rule attempts_from_nonempty)
  have af: "attempts_from fuel env retryCount ?n (?k # ks)"
    using ks(1) ar rc unfolding len by simp
  have last: "last (?k # ks) = last ks"
    using ne by simp
  have tr': "trace (fst R) = trace s @ job_events (?k # ks)"
    using ks(3) tr ne by (simp add: job_events_Cons)
  have res: "case attempt_result fuel env (length (trace (fst R)) - Suc (last (?k # ks))) of
           None \<Rightarrow> snd R = None \<and> allMembers (fst R) = allMembers s
         | Some (Inl err) \<Rightarrow>
             snd R = Some False \<and> length (?k # ks) + retryCount = Suc maxRetries \<and>
             allMembers (fst R) = allMembers s \<and>
             error_state (fst R) = Some (final_error err)
         | Some (Inr u) \<Rightarrow>
             snd R = Some True \<and>
             allMembers (fst R)
               = pages env (length (trace (fst R)) - last (?k # ks)) (last (?k # ks))"
    using ks(4) unfolding last am
    by (auto split: option.splits sum.splits)
  have le: "length (?k # ks) + retryCount \<le> Suc maxRetries"
    using ks(2) by simp
  show "?P retryCount s R"
    using af le tr' res by (intro impI exI [of _ "?k # ks"] conjI)
qed

lemma fetchAllMembers_state:
  "fst (fetchAllMembers fuel env s) =
     (let A = attemptFetch fuel env 0 (setFetchProgress (Fin 0) (s\<lparr>loadingMembers := True\<rparr>))
      in case snd A of
           None \<Rightarrow> fst A
         | Some ok \<Rightarrow> (if \<not> ok then (fst A)\<lparr>allMembers := []\<rparr> else fst A)\<lparr>loadingMembers := False\<rparr>)"
  by (simp add: fetchAllMembers_def Let_def split: prod.split option.split)

lemma fetchAllMembers_result:
  "snd (fetchAllMembers fuel env s) =
     (case snd (attemptFetch fuel env 0 (setFetchProgress (Fin 0) (s\<lparr>loadingMembers := True\<rparr>))) of
        None \<Rightarrow> None | Some ok \<Rightarrow> Some ())"
  by (simp add: fetchAllMembers_def split: prod.split option.split)

text \<open>
  C1 (as amended).  For every enumeration job, when an attempt fails (the request for
  the count or a page request is rejected or answers \<open>success = false\<close>) and fewer than
  \<open>maxRetries = 3\<close> retries were made, the driver drops what the attempt had collected,
  waits a fixed 2 seconds and starts the whole fetch again, from the request for the
  count and the page at offset \<open>0\<close>.  The job makes at most \<open>1 + maxRetries = 4\<close>
  attempts, and it gives up exactly when its fourth attempt has failed.  In the trace:
  the events of a job are those of its attempts in order, each attempt being the request
  for the count followed by its page requests at the offsets \<open>0\<close>, \<open>50\<close>, ..., with
  \<open>Sleep 2000\<close> between two attempts; an attempt is followed by a further one exactly
  when it failed and was not the fourth; and the job ends as its last attempt does: still
  running, or with the pages of the last attempt alone as the members, or, the fourth
  attempt having failed, with no member and the message of that failure.
\<close>

theorem whole_job_retry:
  "\<exists>ks. attempts_from fuel env 0 (length (trace s)) ks \<and> length ks \<le> 4 \<and>
        trace (fst (fetchAllMembers fuel env s)) = trace s @ job_events ks \<and>
        (case attempt_result fuel env
                (length (trace (fst (fetchAllMembers fuel env s))) - Suc (last ks)) of
           None \<Rightarrow> snd (fetchAllMembers fuel env s) = None
         | Some (Inl err) \<Rightarrow>
             snd (fetchAllMembers fuel env s) = Some () \<and> length ks = 4 \<and>
             allMembers (fst (fetchAllMembers fuel env s)) = [] \<and>
             error_state (fst (fetchAllMembers fuel env s)) = Some (final_error err)
         | Some (Inr u) \<Rightarrow>
             snd (fetchAllMembers fuel env s) = Some () \<and>
             allMembers (fst (fetchAllMembers fuel env s))
               = pages env (length (trace (fst (fetchAllMembers fuel env s))) - last ks) (last ks))"
proof -
  let ?s0 = "setFetchProgress (Fin 0) (s\<lparr>loadingMembers := True\<rparr>)"
  let ?A = "attemptFetch fuel env 0 ?s0"
  let ?F = "fetchAllMembers fuel env s"
  have s0: "trace ?s0 = trace s"
    by (simp add: setFetchProgress_def)
  from attemptFetch_run [of 0 fuel env ?s0]
  obtain ks where ks: "attempts_from fuel env 0 (length (trace s)) ks"
      "length ks \<le> Suc maxRetries"
      "trace (fst ?A) = trace s @ job_events ks"
      "case attempt_result fuel env (length (trace (fst ?A)) - Suc (last ks)) of
           None \<Rightarrow> snd ?A = None \<and> allMembers (fst ?A) = allMembers ?s0
         | Some (Inl err) \<Rightarrow>
             snd ?A = Some False \<and> length ks + 0 = Suc maxRetries \<and>
             allMembers (fst ?A) = allMembers ?s0 \<and>
             error_state (fst ?A) = Some (final_error err)
         | Some (Inr u) \<Rightarrow>
             snd ?A = Some True \<and>
             allMembers (fst ?A) = pages env (length (trace (fst ?A)) - last ks) (last ks)"
    unfolding s0 by auto
  have trF: "trace (fst ?F) = trace (fst ?A)"
    by (simp add: fetchAllMembers_state Let_def split: option.split)
  have "case attempt_result fuel env (length (trace (fst ?F)) - Suc (last ks)) of
           None \<Rightarrow> snd ?F = None
         | Some (Inl err) \<Rightarrow>
             snd ?F = Some () \<and> length ks = 4 \<and> allMembers (fst ?F) = [] \<and>
             error_state (fst ?F) = Some (final_error err)
         | Some (Inr u) \<Rightarrow>
             snd ?F = Some () \<and>
             allMembers (fst ?F) = pages env (length (trace (fst ?F)) - last ks) (last ks)"
    using ks(4) unfolding trF
    by (auto simp: fetchAllMembers_state fetchAllMembers_result maxRetries_def Let_def
             split: option.splits sum.splits)
  moreover have "length ks \<le> 4"
    using ks(2) by (simp add: maxRetries_def)
  ultimately show ?thesis
    using ks(1,3) trF by (intro exI [of _ ks]) simp
qed

text \<open>
  The theorem at a job whose first two attempts fail and whose third succeeds: three
  attempts with \<open>2\<close>, \<open>0\<close> and \<open>2\<close> page requests, and the members of the third; and
  at the job that fails four times.
\<close>

theorem whole_job_retry_witness:
  "attempts_from 10 env_third_time 0 (length (trace (initial_state :: nat state))) [2, 0, 2] \<and>
   trace (fst (fetchAllMembers 10 env_third_time initial_state)) = job_events [2, 0, 2] \<and>
   job_events [2, 0, 2]
     = [Get 0 1, Get 0 50, Get 50 50, Sleep 2000, Get 0 1, Sleep 2000, Get 0 1, Get 0 50, Get 50 50] \<and>
   allMembers (fst (fetchAllMembers 10 env_third_time initial_state)) = [7, 8, 9] \<and>
   pages env_third_time (length (job_events [2, 0, 2]) - 2) 2 = [7, 8, 9] \<and>
   attempts_from 0 env_always_fails 0 (length (trace (initial_state :: nat state))) [0, 0, 0, 0] \<and>
   trace (fst (fetchAllMembers 0 env_always_fails (initial_state :: nat state)))
     = job_events [0, 0, 0, 0] \<and>
   allMembers (fst (fetchAllMembers 0 env_always_fails (initial_state :: nat state))) = [] \<and>
   (\<exists>ks. attempts_from 10 env_third_time 0 (length (trace (initial_state :: nat state))) ks \<and>
        length ks \<le> 4 \<and>
        trace (fst (fetchAllMembers 10 env_third_time initial_state))
          = trace (initial_state :: nat state) @ job_events ks \<and>
        (case attempt_result 10 env_third_time
                (length (trace (fst (fetchAllMembers 10 env_third_time initial_state)))
                   - Suc (last ks)) of
           None \<Rightarrow> snd (fetchAllMembers 10 env_third_time initial_state) = None
         | Some (Inl err) \<Rightarrow>
             snd (fetchAllMembers 10 env_third_time initial_state) = Some () \<and> length ks = 4 \<and>
             allMembers (fst (fetchAllMembers 10 env_third_time initial_state)) = [] \<and>
             error_state (fst (fetchAllMembers 10 env_third_time initial_state))
               = Some (final_error err)
         | Some (Inr u) \<Rightarrow>
             snd (fetchAllMembers 10 env_third_time initial_state) = Some () \<and>
             allMembers (fst (fetchAllMembers 10 env_third_time initial_state))
               = pages env_third_time
                   (length (trace (fst (fetchAllMembers 10 env_third_time initial_state))) - last ks)
                   (last ks)))"
proof (intro conjI)
  show "attempts_from 10 env_third_time 0 (length (trace (initial_state :: nat state))) [2, 0, 2]"
    by code_simp
  show "trace (fst (fetchAllMembers 10 env_third_time initial_state)) = job_events [2, 0, 2]"
    by code_simp
  show "job_events [2, 0, 2]
     = [Get 0 1, Get 0 50, Get 50 50, Sleep 2000, Get 0 1, Sleep 2000, Get 0 1, Get 0 50, Get 50 50]"
    by code_simp
  show "allMembers (fst (fetchAllMembers 10 env_third_time initial_state)) = [7, 8, 9]"
    by code_simp
  show "pages env_third_time (length (job_events [2, 0, 2]) - 2) 2 = [7, 8, 9]"
    by code_simp
  show "attempts_from 0 env_always_fails 0 (length (trace (initial_state :: nat state))) [0, 0, 0, 0]"
    by code_simp
  show "trace (fst (fetchAllMembers 0 env_always_fails (initial_state :: nat state)))
     = job_events [0, 0, 0, 0]"
    by code_simp
  show "allMembers (fst (fetchAllMembers 0 env_always_fails (initial_state :: nat state))) = []"
    by code_simp
  show "\<exists>ks. attempts_from 10 env_third_time 0 (length (trace (initial_state :: nat state))) ks \<and>
        length ks \<le> 4 \<and>
        trace (fst (fetchAllMembers 10 env_third_time initial_state))
          = trace (initial_state :: nat state) @ job_events ks \<and>
        (case attempt_result 10 env_third_time
                (length (trace (fst (fetchAllMembers 10 env_third_time initial_state)))
                   - Suc (last ks)) of
           None \<Rightarrow> snd (fetchAllMembers 10 env_third_time initial_state) = None
         | Some (Inl err) \<Rightarrow>
             snd (fetchAllMembers 10 env_third_time initial_state) = Some () \<and> length ks = 4 \<and>
             allMembers (fst (fetchAllMembers 10 env_third_time initial_state)) = [] \<and>
             error_state (fst (fetchAllMembers 10 env_third_time initial_state))
               = Some (final_error err)
         | Some (Inr u) \<Rightarrow>
             snd (fetchAllMembers 10 env_third_time initial_state) = Some () \<and>
             allMembers (fst (fetchAllMembers 10 env_third_time initial_state))
               = pages env_third_time
                   (length (trace (fst (fetchAllMembers 10 env_third_time initial_state))) - last ks)
                   (last ks))"
    by (rule whole_job_retry)
qed

text \<open>
  C1 as stated bounds the attempts by \<open>3\<close>.  Against a backend that rejects every
  request the job asks for the count four times: \<open>retryCount < maxRetries\<close> lets three
  retries follow the first attempt.
\<close>

theorem four_attempts_counterexample:
  "trace (fst (fetchAllMembers 0 env_always_fails (initial_state :: nat state)))
     = [Get 0 1, Sleep 2000, Get 0 1, Sleep 2000, Get 0 1, Sleep 2000, Get 0 1] \<and>
   length (filter (\<lambda>e. e = Get 0 1)
             (trace (fst (fetchAllMembers 0 env_always_fails (initial_state :: nat state))))) = 4 \<and>
   \<not> length (filter (\<lambda>e. e = Get 0 1)
             (trace (fst (fetchAllMembers 0 env_always_fails (initial_state :: nat state))))) \<le> 3"
  by code_simp

section \<open>What a job delivers\<close>





section \<open>The collected sequence\<close>

text \<open>
  C6.  Throughout the loop of an attempt (after any number of passes: the fuel is
  arbitrary), the page requests issued so far are at the offsets \<open>0\<close>, \<open>50\<close>,
  \<open>100\<close>, ... with limit \<open>50\<close>, the collected sequence \<open>allFetchedMembers\<close> is exactly
  the concatenation of the pages received for them, in that order and with nothing
  removed, and \<open>currentOffset\<close> is \<open>50\<close> times the number of non-empty pages received.
\<close>

theorem collected_is_concatenation_of_pages:
  "trace (snd (fst (while_loop fuel env totalMembers
            (\<lparr>allFetchedMembers = [], currentOffset = 0, hasMore = True\<rparr>, s))))
     = trace s @ map (\<lambda>i. Get (i * 50) 50) [0..<iterations env (length (trace s)) fuel] \<and>
   allFetchedMembers (fst (fst (while_loop fuel env totalMembers
            (\<lparr>allFetchedMembers = [], currentOffset = 0, hasMore = True\<rparr>, s))))
     = concat (map (\<lambda>i. page_data (env (length (trace s) + i)))
                [0..<iterations env (length (trace s)) fuel]) \<and>
   currentOffset (fst (fst (while_loop fuel env totalMembers
            (\<lparr>allFetchedMembers = [], currentOffset = 0, hasMore = True\<rparr>, s))))
     = 50 * length (filter (\<lambda>i. page_data (env (length (trace s) + i)) \<noteq> [])
                      [0..<iterations env (length (trace s)) fuel])"
proof -
  let ?l0 = "\<lparr>allFetchedMembers = [], currentOffset = 0, hasMore = True\<rparr> :: 'a locals"
  have h: "hasMore ?l0" by simp
  show ?thesis
    using while_loop_trace [OF h, of fuel env totalMembers s]
      while_loop_fetched [OF h, of fuel env totalMembers s]
      while_loop_offset [OF h, of fuel env totalMembers s]
    by (simp add: page_requests_def pages_def batchSize_def)
qed

section \<open>Progress\<close>

lemma loop_body_progress:
  "progress_log (snd (fst (loop_body env t (l, s))))
     = progress_log s @ pass_progress (length (allFetchedMembers l)) t (env (length (trace s)))"
  by (simp add: loop_body_def Let_def pass_progress_def setFetchProgress_def split: sum.split)

lemma while_loop_progress:
  "hasMore l \<Longrightarrow>
   progress_log (snd (fst (while_loop fuel env t (l, s))))
     = progress_log s @ loop_progress env t (length (allFetchedMembers l)) (length (trace s)) fuel"
proof (induction fuel arbitrary: l s)
  case 0
  then show ?case by simp
next
  case (Suc fuel)
  obtain l1 s1 where ls1: "fst (loop_body env t (l, s)) = (l1, s1)"
    by (cases "fst (loop_body env t (l, s))")
  have tr: "trace s1 = trace s @ [Get (currentOffset l) batchSize]"
    using loop_body_trace [of env t l s] ls1 by simp
  have fe: "allFetchedMembers l1 = allFetchedMembers l @ page_data (env (length (trace s)))"
    using loop_body_fetched [of env t l s] ls1 by simp
  have pr: "progress_log s1
      = progress_log s @ pass_progress (length (allFetchedMembers l)) t (env (length (trace s)))"
    using loop_body_progress [of env t l s] ls1 by simp
  show ?case
  proof (cases "continues (env (length (trace s)))")
    case True
    then have h1: "hasMore l1"
      using loop_body_continues [of env t l s] ls1 by auto
    from Suc.IH [OF h1, of s1] True Suc.prems ls1 tr fe pr show ?thesis
      by (simp add: while_loop_continue del: while_loop.simps)
  next
    case False
    with Suc.prems ls1 pr show ?thesis
      by (simp add: while_loop_stop del: while_loop.simps)
  qed
qed

lemma round_nonneg: "0 \<le> (x::rat) \<Longrightarrow> 0 \<le> round x"
  by (simp add: round_def)

lemma is_percent_of_int: "0 \<le> z \<Longrightarrow> is_percent (Fin (min (of_int z) 100))"
proof -
  assume z: "0 \<le> z"
  have "min (of_int z) (100::rat) = of_int (min z 100)"
    by (simp add: min_def)
  then show ?thesis
    using z by (simp del: of_int_min add: min_def)
qed

lemma progress_of_percent: "0 < fetched \<Longrightarrow> is_percent (progress_of fetched totalMembers)"
proof (cases "totalMembers = 0")
  case True
  assume "0 < fetched"
  with True show ?thesis
    by (simp add: progress_of_def js_div_def)
next
  case False
  have "0 \<le> round ((of_nat fetched :: rat) / of_nat totalMembers * 100)"
    by (rule round_nonneg) simp
  then show ?thesis
    using False by (simp add: progress_of_def js_div_def is_percent_of_int del: is_percent.simps)
qed

lemma pass_progress_percent: "list_all is_percent (pass_progress fetched t r)"
proof (cases r)
  case (Inl err)
  then show ?thesis by (simp add: pass_progress_def)
next
  case (Inr response)
  have "data response \<noteq> [] \<Longrightarrow> is_percent (progress_of (fetched + length (data response)) t)"
    by (rule progress_of_percent) simp
  with Inr show ?thesis
    by (simp add: pass_progress_def del: is_percent.simps) simp
qed

lemma loop_body_fetchProgress:
  "fetchProgress (snd (fst (loop_body env t (l, s))))
     = last (fetchProgress s # pass_progress (length (allFetchedMembers l)) t (env (length (trace s))))"
  by (simp add: loop_body_def Let_def pass_progress_def setFetchProgress_def split: sum.split)

lemma percent_since_extend:
  assumes "percent_since old s" and "list_all is_percent ps"
    and "progress_log s' = progress_log s @ ps" and "fetchProgress s' = last (fetchProgress s # ps)"
  shows "percent_since old s'"
proof -
  from assms(1) obtain new where new: "progress_log s = old @ new" "new \<noteq> []"
      "list_all is_percent new" "fetchProgress s = last new"
    by (auto simp: percent_since_def)
  have "progress_log s' = old @ (new @ ps)" "new @ ps \<noteq> []" "list_all is_percent (new @ ps)"
      "fetchProgress s' = last (new @ ps)"
    using new assms(2,3,4) by simp_all
  then show ?thesis
    unfolding percent_since_def by blast
qed

lemma percent_since_frame:
  assumes "percent_since old s" and "progress_log s' = progress_log s"
    and "fetchProgress s' = fetchProgress s"
  shows "percent_since old s'"
  using assms by (simp add: percent_since_def)

lemma loop_body_percent:
  assumes "percent_since old (snd ls)"
  shows "percent_since old (snd (fst (loop_body env t ls)))"
proof -
  obtain l s where ls: "ls = (l, s)" by (cases ls)
  show ?thesis
    using assms unfolding ls
    by (intro percent_since_extend [OF _ pass_progress_percent loop_body_progress loop_body_fetchProgress])
       simp
qed

lemma while_loop_percent:
  assumes "percent_since old s"
  shows "percent_since old (snd (fst (while_loop fuel env t (l, s))))"
proof (rule while_loop_invariant [where I = "\<lambda>ls. percent_since old (snd ls)"])
  show "percent_since old (snd (l, s))" using assms by simp
next
  fix ls :: "'a locals \<times> 'a state"
  assume "percent_since old (snd ls)"
  then show "percent_since old (snd (fst (loop_body env t ls)))"
    by (rule loop_body_percent)
qed

lemma try_block_percent:
  assumes "percent_since old s"
  shows "percent_since old (fst (try_block fuel env s))"
proof (cases "thrown (env (length (trace s)))")
  case (Some err)
  then have t: "thrown (env (length (trace s))) \<noteq> None" by simp
  from try_block_count_fails [of env s fuel, OF t] assms show ?thesis
    by (auto intro: percent_since_frame)
next
  case None
  then obtain r where r: "env (length (trace s)) = Inr r" "success r"
    by (auto simp: thrown_cases)
  let ?s0 = "s\<lparr>trace := trace s @ [Get 0 1]\<rparr>"
  let ?l0 = "\<lparr>allFetchedMembers = [], currentOffset = 0, hasMore = True\<rparr> :: 'a locals"
  let ?t = "or_zero (total_count r)"
  define W where "W = while_loop fuel env ?t (?l0, ?s0)"
  note tb = try_block_count_ok [OF r W_def]
  have "percent_since old ?s0"
    using assms by (rule percent_since_frame) simp_all
  then have w: "percent_since old (snd (fst W))"
    unfolding W_def by (rule while_loop_percent)
  then have "percent_since old ((snd (fst W))\<lparr>allMembers := ms\<rparr>)" for ms
    by (rule percent_since_frame) simp_all
  with w show ?thesis
    by (simp add: tb split: option.split sum.split)
qed

lemma attemptFetch_percent:
  "percent_since old s \<longrightarrow> percent_since old (fst (attemptFetch fuel env retryCount s))"
proof (rule attemptFetch_cases
    [where P = "\<lambda>retryCount s R. percent_since old s \<longrightarrow> percent_since old (fst R)"])
  fix retryCount and s :: "'a state"
  show "percent_since old s \<longrightarrow> percent_since old (fst (fst (try_block fuel env s), None :: bool option))"
    by (simp add: try_block_percent)
  show "percent_since old s \<longrightarrow> percent_since old (fst (fst (try_block fuel env s), Some True))"
    by (simp add: try_block_percent)
next
  fix retryCount and s :: "'a state" and err
  have "percent_since old (fst (try_block fuel env s)) \<Longrightarrow>
      percent_since old ((fst (try_block fuel env s))\<lparr>error_state := Some (final_error err)\<rparr>)"
    by (rule percent_since_frame) simp_all
  then show "percent_since old s \<longrightarrow>
      percent_since old (fst ((fst (try_block fuel env s))\<lparr>error_state := Some (final_error err)\<rparr>, Some False))"
    by (simp add: try_block_percent)
next
  fix retryCount and s :: "'a state" and err and R :: "'a state \<times> bool option"
  assume IH: "percent_since old (retry_state retryCount (fst (try_block fuel env s))) \<longrightarrow>
      percent_since old (fst R)"
  have "percent_since old (fst (try_block fuel env s)) \<Longrightarrow>
      percent_since old (retry_state retryCount (fst (try_block fuel env s)))"
    by (rule percent_since_frame) (simp_all add: retry_state_def)
  with IH show "percent_since old s \<longrightarrow> percent_since old (fst R)"
    by (auto intro: try_block_percent)
qed

lemma fetchAllMembers_percent_since:
  "percent_since (progress_log s) (fst (fetchAllMembers fuel env s))"
proof -
  let ?s0 = "setFetchProgress (Fin 0) (s\<lparr>loadingMembers := True\<rparr>)"
  let ?A = "attemptFetch fuel env 0 ?s0"
  have "percent_since (progress_log s) ?s0"
    unfolding percent_since_def
    by (intro exI [of _ "[Fin 0]"]) (simp add: setFetchProgress_def)
  with attemptFetch_percent [of "progress_log s" ?s0 fuel env 0]
  have A: "percent_since (progress_log s) (fst ?A)"
    by simp
  show ?thesis
    using A by (rule percent_since_frame)
      (simp_all add: fetchAllMembers_state Let_def split: option.split)
qed

text \<open>
  C9.  Whatever the backend answers (with \<open>total_count\<close> absent, zero or any other
  non-negative integer), and however far the job has run, every value that
  \<open>setFetchProgress\<close> has been called with since the job started is an integer between
  \<open>0\<close> and \<open>100\<close>, and so is the value of \<open>fetchProgress\<close>: the ratio is clamped by
  \<open>Math.min\<close>, a division by a total of zero gives \<open>Infinity\<close> and is clamped as well,
  and the branch of the empty page sets \<open>100\<close>.
\<close>

theorem progress_is_a_percentage:
  "is_percent (fetchProgress (fst (fetchAllMembers fuel env s))) \<and>
   (\<exists>new. progress_log (fst (fetchAllMembers fuel env s)) = progress_log s @ new \<and>
          new \<noteq> [] \<and> list_all is_percent new \<and>
          fetchProgress (fst (fetchAllMembers fuel env s)) = last new)"
proof -
  from fetchAllMembers_percent_since [of s fuel env]
  obtain new where new: "progress_log (fst (fetchAllMembers fuel env s)) = progress_log s @ new"
      "new \<noteq> []" "list_all is_percent new"
      "fetchProgress (fst (fetchAllMembers fuel env s)) = last new"
    by (auto simp: percent_since_def)
  from new(2,3) have "is_percent (last new)"
    by (simp add: list_all_iff)
  with new show ?thesis by metis
qed

lemma try_block_progress:
  assumes "env (length (trace s)) = Inr r" and "success r"
  shows "progress_log (fst (try_block fuel env s))
     = progress_log s @ loop_progress env (or_zero (total_count r)) 0 (Suc (length (trace s))) fuel"
proof -
  let ?s0 = "s\<lparr>trace := trace s @ [Get 0 1]\<rparr>"
  let ?l0 = "\<lparr>allFetchedMembers = [], currentOffset = 0, hasMore = True\<rparr> :: 'a locals"
  let ?t = "or_zero (total_count r)"
  define W where "W = while_loop fuel env ?t (?l0, ?s0)"
  note tb = try_block_count_ok [OF assms W_def]
  have "progress_log (snd (fst W))
      = progress_log ?s0 @ loop_progress env ?t (length (allFetchedMembers ?l0)) (length (trace ?s0)) fuel"
    unfolding W_def by (rule while_loop_progress) simp
  then show ?thesis
    by (simp add: tb split: option.split sum.split)
qed

lemma try_block_returns_True:
  assumes "env (length (trace s)) = Inr r" and "success r"
    and "\<not> (\<forall>i<fuel. continues (env (Suc (length (trace s)) + i)))"
    and "thrown (env (Suc (length (trace s)) + iterations env (Suc (length (trace s))) fuel - 1)) = None"
  shows "snd (try_block fuel env s) = Some (Inr True)"
proof -
  let ?s0 = "s\<lparr>trace := trace s @ [Get 0 1]\<rparr>"
  let ?l0 = "\<lparr>allFetchedMembers = [], currentOffset = 0, hasMore = True\<rparr> :: 'a locals"
  let ?t = "or_zero (total_count r)"
  define W where "W = while_loop fuel env ?t (?l0, ?s0)"
  note tb = try_block_count_ok [OF assms(1,2) W_def]
  have "snd W = Some (Inr ())"
    unfolding W_def using while_loop_result [of ?l0 fuel env ?t ?s0] assms(3,4) by simp
  then show ?thesis
    by (simp add: tb)
qed

lemma progress_values_120:
  "progress_of 50 120 = Fin 42" "progress_of 100 120 = Fin 83" "progress_of 120 120 = Fin 100"
  by code_simp+

text \<open>
  C3 (as amended).  For a job on a group with \<open>total_count = 120\<close> whose pages of
  batch size \<open>50\<close> hold \<open>50\<close>, \<open>50\<close> and \<open>20\<close> members, the progress values computed
  after the pages as \<open>min(100, round(|collected| / total_count * 100))\<close> are exactly
  \<open>42\<close>, \<open>83\<close>, \<open>100\<close> (after the \<open>0\<close> the job starts with): \<open>50 / 120\<close> is
  \<open>41.67\<close> per cent, which \<open>Math.round\<close> rounds up.
\<close>

theorem progress_sequence_120:
  assumes "env (length (trace s)) = Inr cnt" and "success cnt" and "total_count cnt = Some 120"
    and "env (length (trace s) + 1) = Inr pa" and "success pa" and "length (data pa) = 50"
    and "has_more pa"
    and "env (length (trace s) + 2) = Inr pb" and "success pb" and "length (data pb) = 50"
    and "has_more pb"
    and "env (length (trace s) + 3) = Inr pc" and "success pc" and "length (data pc) = 20"
    and "\<not> has_more pc"
  shows "progress_log (fst (fetchAllMembers (3 + fuel) env s))
           = progress_log s @ Fin 0 # [Fin 42, Fin 83, Fin 100] \<and>
         fetchProgress (fst (fetchAllMembers (3 + fuel) env s)) = Fin 100 \<and>
         snd (fetchAllMembers (3 + fuel) env s) = Some ()"
proof -
  let ?n = "length (trace s)"
  let ?s0 = "setFetchProgress (Fin 0) (s\<lparr>loadingMembers := True\<rparr>)"
  have n0: "length (trace ?s0) = ?n"
    by (simp add: setFetchProgress_def)
  have e1: "env (Suc ?n) = Inr pa" and e2: "env (Suc (Suc ?n)) = Inr pb"
    and e3: "env (Suc (Suc (Suc ?n))) = Inr pc"
    using assms(4,8,12) by (simp_all add: numeral_eq_Suc)
  have d: "data pa \<noteq> []" "data pb \<noteq> []" "data pc \<noteq> []"
    using assms(6,10,14) by auto
  have c1: "continues (env (Suc ?n))" and c2: "continues (env (Suc (Suc ?n)))"
    and c3: "\<not> continues (env (Suc (Suc (Suc ?n))))"
    using assms d by (simp_all add: e1 e2 e3 continues_def)
  have fuel: "3 + fuel = Suc (Suc (Suc fuel))"
    by simp
  have it: "iterations env (Suc ?n) (3 + fuel) = 3"
    unfolding fuel using c1 c2 c3 by simp
  have lp: "loop_progress env 120 0 (Suc ?n) (3 + fuel) = [Fin 42, Fin 83, Fin 100]"
    unfolding fuel using c1 c2 c3 assms d
    by (simp add: e1 e2 e3 pass_progress_def page_data_def progress_values_120)
  have stop: "\<not> (\<forall>i<3 + fuel. continues (env (Suc ?n + i)))"
  proof
    assume a: "\<forall>i<3 + fuel. continues (env (Suc ?n + i))"
    have "(2::nat) < 3 + fuel" by simp
    with a have "continues (env (Suc ?n + 2))" by blast
    with c3 show False by simp
  qed
  have "Suc ?n + iterations env (Suc ?n) (3 + fuel) - 1 = Suc (Suc (Suc ?n))"
    by (simp add: it)
  then have th: "thrown (env (Suc ?n + iterations env (Suc ?n) (3 + fuel) - 1)) = None"
    using assms(13) by (simp only: e3) (simp add: thrown_def)
  have ok: "snd (try_block (3 + fuel) env ?s0) = Some (Inr True)"
  proof (rule try_block_returns_True [of env ?s0 cnt])
    show "env (length (trace ?s0)) = Inr cnt"
      unfolding n0 by (rule assms(1))
    show "success cnt" by fact
    show "\<not> (\<forall>i<3 + fuel. continues (env (Suc (length (trace ?s0)) + i)))"
      unfolding n0 by (rule stop)
    show "thrown (env (Suc (length (trace ?s0))
            + iterations env (Suc (length (trace ?s0))) (3 + fuel) - 1)) = None"
      unfolding n0 by (rule th)
  qed
  have pl: "progress_log (fst (try_block (3 + fuel) env ?s0))
      = progress_log ?s0 @ [Fin 42, Fin 83, Fin 100]"
    using try_block_progress [of env ?s0 cnt "3 + fuel"] assms(1,2,3) lp
    by (simp only: n0 or_zero_def option.case)
  have A: "attemptFetch (3 + fuel) env 0 ?s0 = (fst (try_block (3 + fuel) env ?s0), Some True)"
    using ok by (rule attemptFetch_returned)
  have log: "progress_log (fst (fetchAllMembers (3 + fuel) env s))
      = progress_log s @ Fin 0 # [Fin 42, Fin 83, Fin 100]"
  proof -
    have "fst (fetchAllMembers (3 + fuel) env s)
        = (fst (try_block (3 + fuel) env ?s0))\<lparr>loadingMembers := False\<rparr>"
      unfolding fetchAllMembers_state A by simp
    with pl show ?thesis
      by (simp add: setFetchProgress_def)
  qed
  from fetchAllMembers_percent_since [of s "3 + fuel" env] log
  have "fetchProgress (fst (fetchAllMembers (3 + fuel) env s)) = Fin 100"
    by (auto simp: percent_since_def)
  moreover have "snd (fetchAllMembers (3 + fuel) env s) = Some ()"
    unfolding fetchAllMembers_result A by simp
  ultimately show ?thesis
    using log by simp
qed

text \<open>The theorem at the scripted backend of a group of 120 members.\<close>

theorem progress_sequence_120_witness:
  "env_120 (length (trace (initial_state :: nat state))) = ok_page [0] (Some 120) True \<and>
   env_120 (length (trace (initial_state :: nat state)) + 1) = ok_page [0..<50] (Some 120) True \<and>
   env_120 (length (trace (initial_state :: nat state)) + 2) = ok_page [50..<100] (Some 120) True \<and>
   env_120 (length (trace (initial_state :: nat state)) + 3) = ok_page [100..<120] (Some 120) False \<and>
   progress_log (fst (fetchAllMembers 3 env_120 initial_state)) = [Fin 0, Fin 42, Fin 83, Fin 100] \<and>
   fetchProgress (fst (fetchAllMembers 3 env_120 initial_state)) = Fin 100 \<and>
   snd (fetchAllMembers 3 env_120 initial_state) = Some ()"
proof -
  let ?s = "initial_state :: nat state"
  have e: "env_120 (length (trace ?s)) = ok_page [0] (Some 120) True"
    "env_120 (length (trace ?s) + 1) = ok_page [0..<50] (Some 120) True"
    "env_120 (length (trace ?s) + 2) = ok_page [50..<100] (Some 120) True"
    "env_120 (length (trace ?s) + 3) = ok_page [100..<120] (Some 120) False"
    by (simp_all add: env_120_def scripted_def initial_state_def)
  have "progress_log (fst (fetchAllMembers (3 + 0) env_120 ?s))
           = progress_log ?s @ Fin 0 # [Fin 42, Fin 83, Fin 100] \<and>
         fetchProgress (fst (fetchAllMembers (3 + 0) env_120 ?s)) = Fin 100 \<and>
         snd (fetchAllMembers (3 + 0) env_120 ?s) = Some ()"
    by (rule progress_sequence_120 [OF e(1) [unfolded ok_page_def] _ _ e(2) [unfolded ok_page_def] _ _ _
          e(3) [unfolded ok_page_def] _ _ _ e(4) [unfolded ok_page_def]]) simp_all
  then show ?thesis
    using e by (simp add: initial_state_def)
qed

text \<open>
  C3 as stated gives \<open>41\<close> as the first value; the formula of the claim and of the code
  gives \<open>42\<close>.
\<close>

theorem progress_41_counterexample:
  "drop 1 (progress_log (fst (fetchAllMembers 3 env_120 initial_state)))
     = [Fin 42, Fin 83, Fin 100] \<and>
   map (\<lambda>n. progress_of n 120) [50, 100, 120] \<noteq> [Fin 41, Fin 83, Fin 100]"
  by code_simp

section \<open>The decision to fetch a further page\<close>

lemma page_requests_two:
  "(\<exists>evs. page_requests off k = Get off batchSize # Get (off + batchSize) batchSize # evs)
     \<longleftrightarrow> 2 \<le> k"
proof (cases k)
  case 0
  then show ?thesis by (simp add: page_requests_def)
next
  case (Suc j)
  then show ?thesis
    by (cases j) (simp_all add: page_requests_Suc, simp add: page_requests_def)
qed

text \<open>
  C4 (as amended).  During the loop, after every page response the decision to fetch a
  further page is the backend's: a further page (at the offset advanced by \<open>50\<close>) is
  requested if and only if the request succeeded with a response that is successful, has
  a non-empty page and has \<open>has_more = true\<close>.  Neither the length of the page compared
  with the batch size nor \<open>total_count\<close> enters the decision.
\<close>

theorem further_page_iff_has_more:
  assumes "hasMore l"
  shows "(\<exists>evs. trace (snd (fst (while_loop (Suc (Suc fuel)) env totalMembers (l, s))))
             = trace s @ Get (currentOffset l) 50 # Get (currentOffset l + 50) 50 # evs)
         \<longleftrightarrow> (\<exists>response. env (length (trace s)) = Inr response \<and> success response \<and>
                 data response \<noteq> [] \<and> has_more response)"
proof -
  let ?k = "iterations env (length (trace s)) (Suc (Suc fuel))"
  let ?off = "currentOffset l"
  have tr: "trace (snd (fst (while_loop (Suc (Suc fuel)) env totalMembers (l, s))))
      = trace s @ page_requests ?off ?k"
    by (rule while_loop_trace [OF assms])
  have "(\<exists>evs. trace (snd (fst (while_loop (Suc (Suc fuel)) env totalMembers (l, s))))
             = trace s @ Get ?off 50 # Get (?off + 50) 50 # evs)
      \<longleftrightarrow> (\<exists>evs. page_requests ?off ?k = Get ?off batchSize # Get (?off + batchSize) batchSize # evs)"
    by (simp only: tr same_append_eq batchSize_def)
  also have "\<dots> \<longleftrightarrow> 2 \<le> ?k"
    by (rule page_requests_two)
  also have "\<dots> \<longleftrightarrow> continues (env (length (trace s)))"
    by simp
  also have "\<dots> \<longleftrightarrow> (\<exists>response. env (length (trace s)) = Inr response \<and> success response \<and>
                 data response \<noteq> [] \<and> has_more response)"
    by (cases "env (length (trace s))") (simp_all add: continues_def)
  finally show ?thesis .
qed

text \<open>
  The theorem at the first page of the group of 120 members: the page is full and says
  \<open>has_more = true\<close>, and the page at offset \<open>50\<close> is requested.
\<close>

theorem further_page_iff_has_more_witness:
  "hasMore \<lparr>allFetchedMembers = [] :: nat list, currentOffset = 0, hasMore = True\<rparr> \<and>
   env_120 (length [Get 0 1]) = ok_page [0..<50] (Some 120) True \<and>
   (\<exists>evs. trace (snd (fst (while_loop 2 env_120 120
              (\<lparr>allFetchedMembers = [], currentOffset = 0, hasMore = True\<rparr>,
               initial_state\<lparr>trace := [Get 0 1]\<rparr>))))
            = [Get 0 1] @ Get 0 50 # Get (0 + 50) 50 # evs)"
proof -
  let ?l = "\<lparr>allFetchedMembers = [] :: nat list, currentOffset = 0, hasMore = True\<rparr>"
  let ?s = "initial_state\<lparr>trace := [Get 0 1]\<rparr> :: nat state"
  have e: "env_120 (length [Get 0 1]) = ok_page [0..<50] (Some 120) True"
    by (simp add: env_120_def scripted_def)
  have h: "hasMore ?l" by simp
  have "\<exists>response. env_120 (length (trace ?s)) = Inr response \<and> success response \<and>
      data response \<noteq> [] \<and> has_more response"
    using e by (simp add: ok_page_def)
  with further_page_iff_has_more [OF h, of 0 env_120 120 ?s]
  have "\<exists>evs. trace (snd (fst (while_loop (Suc (Suc 0)) env_120 120 (?l, ?s))))
            = trace ?s @ Get (currentOffset ?l) 50 # Get (currentOffset ?l + 50) 50 # evs"
    by blast
  then show ?thesis
    using e h by (simp add: numeral_2_eq_2 del: while_loop.simps)
qed

text \<open>
  C4 as stated computes \<open>has_more\<close> from the length of the page and \<open>total_count\<close>.
  A full first page of a group of \<open>120\<close> members that says \<open>has_more = false\<close> ends the
  loop after one request, although the page has \<open>50\<close> members and the advanced offset
  \<open>50\<close> is below \<open>120\<close>; and a page of one member that says \<open>has_more = true\<close> is
  followed by a further request.
\<close>

theorem has_more_is_the_backends_counterexample:
  "env_says_no_more 0 = ok_page [0..<50] (Some 120) False \<and>
   length [0..<50] = batchSize \<and>
   currentOffset (fst (fst (while_loop 5 env_says_no_more 120
      (\<lparr>allFetchedMembers = [], currentOffset = 0, hasMore = True\<rparr>, initial_state)))) = 50 \<and>
   (50::nat) < 120 \<and>
   \<not> hasMore (fst (fst (while_loop 5 env_says_no_more 120
      (\<lparr>allFetchedMembers = [], currentOffset = 0, hasMore = True\<rparr>, initial_state)))) \<and>
   while_loop 5 env_says_no_more 120
      (\<lparr>allFetchedMembers = [], currentOffset = 0, hasMore = True\<rparr>, initial_state)
     = while_loop 1 env_says_no_more 120
      (\<lparr>allFetchedMembers = [], currentOffset = 0, hasMore = True\<rparr>, initial_state) \<and>
   trace (snd (fst (while_loop 5 env_says_no_more 120
      (\<lparr>allFetchedMembers = [], currentOffset = 0, hasMore = True\<rparr>, initial_state)))) = [Get 0 50] \<and>
   env_never_ends 0 = ok_page [0] None True \<and>
   length [0::nat] \<noteq> batchSize \<and>
   trace (snd (fst (while_loop 2 env_never_ends 0
      (\<lparr>allFetchedMembers = [], currentOffset = 0, hasMore = True\<rparr>, initial_state))))
     = [Get 0 50, Get 50 50]"
  by code_simp

section \<open>A group that cannot be resolved\<close>

lemma handleSubmit_failed:
  assumes "parse_failed parse"
  shows "handleSubmit fuel parse env s =
    (s\<lparr>loading := False,
        error_state := Some (case parse of
                               Inl err \<Rightarrow> submit_error err
                             | Inr response \<Rightarrow> or_else (error response) ''Failed to parse group''),
        allMembers := [], currentPage := 1, trace := trace s @ [Post]\<rparr>, Some ())"
  using assms by (cases parse) (simp_all add: handleSubmit_def parse_failed_def Let_def)

lemma or_else_text: "t \<noteq> [] \<Longrightarrow> or_else (Some t) d = t"
  by (simp add: or_else_def)

text \<open>
  C5 (as amended).  If resolving the group reference fails (the POST to
  \<open>/api/parse-group\<close> is rejected or answers \<open>success = false\<close>, with the text of an
  entity that was not found or any other), \<open>handleSubmit\<close> returns with no member
  listed and a non-empty error message, and no member-listing request is ever issued:
  the POST is the only event of the job.  The message is the error text the backend
  sent, verbatim, whenever it sent one.  Without such a text it is \<open>Failed to parse
  group\<close> for a response with \<open>success = false\<close>, \<open>Server error occurred\<close> for a
  rejected request that has a response, the network error text for a rejected request
  that got no response, and otherwise the message of the exception (\<open>An unexpected error
  occurred\<close> when that is empty).  The component adds no instruction about admin rights
  on this path.
\<close>

theorem resolve_failure_no_listing:
  assumes "parse_failed parse"
  shows "snd (handleSubmit fuel parse env s) = Some () \<and>
         trace (fst (handleSubmit fuel parse env s)) = trace s @ [Post] \<and>
         allMembers (fst (handleSubmit fuel parse env s)) = [] \<and>
         \<not> loading (fst (handleSubmit fuel parse env s)) \<and>
         error_state (fst (handleSubmit fuel parse env s)) =
           Some (case parse of
                   Inr response \<Rightarrow> or_else (error response) ''Failed to parse group''
                 | Inl err \<Rightarrow>
                     (case response_error err of
                        Some e \<Rightarrow> or_else e ''Server error occurred''
                      | None \<Rightarrow>
                          if has_request err
                          then ''Network error. Please check if the server is running.''
                          else or_else (Some (message err)) ''An unexpected error occurred'')) \<and>
         (\<exists>m. error_state (fst (handleSubmit fuel parse env s)) = Some m \<and> m \<noteq> [] \<and>
              (\<forall>t. server_error_text parse = Some t \<and> t \<noteq> [] \<longrightarrow> m = t))"
proof -
  let ?m = "case parse of Inl err \<Rightarrow> submit_error err
            | Inr response \<Rightarrow> or_else (error response) ''Failed to parse group''"
  have ne: "?m \<noteq> []"
    by (cases parse)
       (auto simp: submit_error_def or_else_def split: option.splits)
  have verbatim: "server_error_text parse = Some t \<and> t \<noteq> [] \<longrightarrow> ?m = t" for t
    using assms
    by (cases parse)
       (auto simp: server_error_text_def parse_failed_def submit_error_def or_else_text
             split: option.splits)
  have ex: "?m = (case parse of
                   Inr response \<Rightarrow> or_else (error response) ''Failed to parse group''
                 | Inl err \<Rightarrow>
                     (case response_error err of
                        Some e \<Rightarrow> or_else e ''Server error occurred''
                      | None \<Rightarrow>
                          if has_request err
                          then ''Network error. Please check if the server is running.''
                          else or_else (Some (message err)) ''An unexpected error occurred''))"
    by (cases parse) (simp_all add: submit_error_def)
  show ?thesis
    using ne verbatim ex by (simp add: handleSubmit_failed [OF assms])
qed

text \<open>
  The theorem at a response that carries the text of an entity that was not found, and
  at an exception that has a message only.
\<close>

theorem resolve_failure_no_listing_witness:
  "parse_failed entity_not_found \<and>
   server_error_text entity_not_found = Some ''Could not find the input entity for PeerChannel'' \<and>
   snd (handleSubmit 5 entity_not_found env_120 initial_state) = Some () \<and>
   trace (fst (handleSubmit 5 entity_not_found env_120 initial_state)) = [Post] \<and>
   allMembers (fst (handleSubmit 5 entity_not_found env_120 initial_state)) = [] \<and>
   error_state (fst (handleSubmit 5 entity_not_found env_120 initial_state))
     = Some ''Could not find the input entity for PeerChannel'' \<and>
   parse_failed (Inl (new_Error ''boom'')) \<and>
   trace (fst (handleSubmit 5 (Inl (new_Error ''boom'')) env_120 initial_state)) = [Post] \<and>
   error_state (fst (handleSubmit 5 (Inl (new_Error ''boom'')) env_120 initial_state)) = Some ''boom''"
proof -
  have f: "parse_failed entity_not_found"
    by (simp add: parse_failed_def entity_not_found_def)
  have t: "server_error_text entity_not_found = Some ''Could not find the input entity for PeerChannel''"
    by (simp add: server_error_text_def entity_not_found_def)
  have g: "parse_failed (Inl (new_Error ''boom''))"
    by (simp add: parse_failed_def)
  from resolve_failure_no_listing [OF f, of 5 env_120 initial_state] t
  have 1: "snd (handleSubmit 5 entity_not_found env_120 initial_state) = Some ()"
    "trace (fst (handleSubmit 5 entity_not_found env_120 initial_state)) = [Post]"
    "allMembers (fst (handleSubmit 5 entity_not_found env_120 initial_state)) = []"
    "error_state (fst (handleSubmit 5 entity_not_found env_120 initial_state))
       = Some ''Could not find the input entity for PeerChannel''"
    by (auto simp: initial_state_def)
  from resolve_failure_no_listing [OF g, of 5 env_120 initial_state]
  have 2: "trace (fst (handleSubmit 5 (Inl (new_Error ''boom'')) env_120 initial_state)) = [Post]"
    "error_state (fst (handleSubmit 5 (Inl (new_Error ''boom'')) env_120 initial_state)) = Some ''boom''"
    by (simp_all add: initial_state_def new_Error_def or_else_def)
  show ?thesis
    using f t g 1 2 by simp
qed

text \<open>
  C5 as stated has the job end with a message about admin rights.  With the text of an
  entity that was not found in the response, the message shown is that text: the
  translation into the admin-rights message is in the \<open>catch\<close> block of
  \<open>attemptFetch\<close> only.
\<close>

theorem resolve_failure_message_counterexample:
  "js_includes ''Could not find the input entity for PeerChannel'' ''Could not find the input entity'' \<and>
   error_state (fst (handleSubmit 5 entity_not_found env_120 initial_state))
     = Some ''Could not find the input entity for PeerChannel'' \<and>
   error_state (fst (handleSubmit 5 entity_not_found env_120 initial_state))
     \<noteq> Some ''Unable to access the group. Please make sure the bot is a member of the group and has admin rights.'' \<and>
   \<not> js_includes ''Could not find the input entity for PeerChannel'' ''admin''"
  by code_simp

section \<open>The credential pool and its status report\<close>

lemma expire_ok: "stored_ok c \<Longrightarrow> stored_ok (expire now c)"
  by (simp add: stored_ok_def expire_def split: option.split)

lemma release_credential_ok: "stored_ok c \<Longrightarrow> stored_ok (release_credential cfg now out c)"
  by (cases out) (simp_all add: stored_ok_def)

lemma list_all_map_preserved:
  "(\<And>c. P c \<Longrightarrow> P (f c)) \<Longrightarrow> list_all P xs \<Longrightarrow> list_all P (map f xs)"
  by (induction xs) auto

lemma pool_step_ok: "list_all stored_ok pool \<Longrightarrow> list_all stored_ok (pool_step cfg pool op)"
proof (cases op)
  case (Acquire now)
  assume "list_all stored_ok pool"
  then have "list_all stored_ok (map (expire now) pool)"
    by (rule list_all_map_preserved [rotated]) (rule expire_ok)
  with Acquire show ?thesis
    by (simp add: acquire_def Let_def)
next
  case (Release now i out)
  assume "list_all stored_ok pool"
  then have "list_all stored_ok
      (map (\<lambda>c. if token_id c = i then release_credential cfg now out c else c) pool)"
    by (rule list_all_map_preserved [rotated]) (simp add: release_credential_ok)
  with Release show ?thesis
    by (simp add: release_def)
qed

lemma foldl_pool_ok:
  "list_all stored_ok pool \<Longrightarrow> list_all stored_ok (foldl (pool_step cfg) pool ops)"
  by (induction ops arbitrary: pool) (simp_all add: pool_step_ok)

lemma initial_pool_ok: "list_all stored_ok (initial_pool cfg)"
  by (simp add: initial_pool_def list_all_iff stored_ok_def split: prod.split)

lemma run_pool_ok: "list_all stored_ok (run_pool cfg ops)"
  unfolding run_pool_def by (rule foldl_pool_ok) (rule initial_pool_ok)

lemma observed_status:
  "stored_ok c \<Longrightarrow> status (expire now c) = Available \<longleftrightarrow> cooldown_over now c"
  by (auto simp: stored_ok_def expire_def cooldown_over_def split: option.split)

lemma pool_step_length: "length (pool_step cfg pool op) = length pool"
  by (cases op) (simp_all add: acquire_def Let_def release_def)

lemma run_pool_length: "length (run_pool cfg ops) = length (credentials cfg)"
proof -
  have "length (foldl (pool_step cfg) pool ops) = length pool" for pool
    by (induction ops arbitrary: pool) (simp_all add: pool_step_length)
  then show ?thesis by (simp add: run_pool_def initial_pool_def)
qed

text \<open>
  C7.  For every credential of the pool, after any sequence of \<open>acquire\<close> and
  \<open>release\<close> operations and at every observation time \<open>now\<close>, the status observed
  (the status after the lazy expiry, which is what \<open>acquire\<close> and \<open>snapshot\<close> read) is
  \<open>Available\<close> if and only if the \<open>cooldown_until\<close> of the credential is null or has
  elapsed (\<open>cooldown_until \<le> now\<close>).  So a read after \<open>cooldown_until\<close> has passed
  observes \<open>Available\<close>, and a snapshot shows \<open>Cooldown\<close> for exactly the credentials
  whose cooldown is not over.
\<close>

theorem available_iff_cooldown_over:
  "list_all (\<lambda>c. (status (expire now c) = Available \<longleftrightarrow> cooldown_over now c) \<and>
                 (status (expire now c) = Available \<longleftrightarrow> cooldown_until (expire now c) = None))
     (run_pool cfg ops) \<and>
   map status (snapshot now (run_pool cfg ops))
     = map (\<lambda>c. if cooldown_over now c then Available else Cooldown) (run_pool cfg ops)"
proof -
  have ok: "list_all stored_ok (run_pool cfg ops)"
    by (rule run_pool_ok)
  have 1: "stored_ok c \<Longrightarrow>
      (status (expire now c) = Available \<longleftrightarrow> cooldown_over now c) \<and>
      (status (expire now c) = Available \<longleftrightarrow> cooldown_until (expire now c) = None)" for c
    using observed_status [of c now] expire_ok [of c now] by (simp add: stored_ok_def)
  have 2: "stored_ok c \<Longrightarrow>
      status (TokenStatus.truncate (expire now c))
        = (if cooldown_over now c then Available else Cooldown)" for c
    using observed_status [of c now]
    by (cases "status (expire now c)") (simp_all add: TokenStatus.truncate_def)
  have "list_all (\<lambda>c. (status (expire now c) = Available \<longleftrightarrow> cooldown_over now c) \<and>
                 (status (expire now c) = Available \<longleftrightarrow> cooldown_until (expire now c) = None))
     (run_pool cfg ops)"
    using ok 1 unfolding list_all_iff by blast
  moreover have "map status (snapshot now (run_pool cfg ops))
     = map (\<lambda>c. if cooldown_over now c then Available else Cooldown) (run_pool cfg ops)"
    using ok 2 unfolding list_all_iff snapshot_def by simp
  ultimately show ?thesis ..
qed

lemma view_status:
  "stored_ok c \<Longrightarrow>
   status (TokenStatus.truncate (expire now c)) = Available \<longleftrightarrow> cooldown_over now c"
  using observed_status [of c now] by (simp add: TokenStatus.truncate_def)

lemma active_count:
  "list_all stored_ok pool \<Longrightarrow>
   length (filter (\<lambda>v. status v = Available) (snapshot now pool))
     = length (filter (cooldown_over now) pool)"
  by (induction pool) (simp_all add: snapshot_def view_status)

text \<open>
  C8.  After any sequence of pool operations and at any time, \<open>GetPoolStatus\<close> reports
  as \<open>total_tokens\<close> the number of configured credentials, however many of them are
  cooling down, as \<open>active_tokens\<close> the number of credentials that are \<open>Available\<close>
  after the lazy expiry (those whose cooldown is over), and as \<open>tokens\<close> the snapshot.
  In particular, for two credentials that are both in \<open>Cooldown\<close> with a
  \<open>cooldown_until\<close> in the past, it reports \<open>active_tokens = 2\<close>.
\<close>

theorem pool_status_counts:
  "total_tokens (GetPoolStatus now (run_pool cfg ops)) = length (credentials cfg) \<and>
   active_tokens (GetPoolStatus now (run_pool cfg ops))
     = length (filter (cooldown_over now) (run_pool cfg ops)) \<and>
   tokens (GetPoolStatus now (run_pool cfg ops)) = snapshot now (run_pool cfg ops) \<and>
   (status a = Cooldown \<and> cooldown_until a = Some ta \<and> ta \<le> now \<and>
    status b = Cooldown \<and> cooldown_until b = Some tb \<and> tb \<le> now \<longrightarrow>
      total_tokens (GetPoolStatus now [a, b]) = 2 \<and>
      active_tokens (GetPoolStatus now [a, b]) = 2)"
proof (intro conjI impI)
  show "total_tokens (GetPoolStatus now (run_pool cfg ops)) = length (credentials cfg)"
    by (simp add: GetPoolStatus_def run_pool_length)
  show "active_tokens (GetPoolStatus now (run_pool cfg ops))
     = length (filter (cooldown_over now) (run_pool cfg ops))"
    by (simp add: GetPoolStatus_def active_count run_pool_ok)
  show "tokens (GetPoolStatus now (run_pool cfg ops)) = snapshot now (run_pool cfg ops)"
    by (simp add: GetPoolStatus_def)
next
  assume "status a = Cooldown \<and> cooldown_until a = Some ta \<and> ta \<le> now \<and>
    status b = Cooldown \<and> cooldown_until b = Some tb \<and> tb \<le> now"
  then show "total_tokens (GetPoolStatus now [a, b]) = 2"
    and "active_tokens (GetPoolStatus now [a, b]) = 2"
    by (simp_all add: GetPoolStatus_def snapshot_def expire_def TokenStatus.truncate_def)
qed

text \<open>
  The theorem at the pool of two tokens after both were rate limited at the time \<open>10\<close>:
  both are active again at \<open>20\<close>, one at \<open>12\<close>, none at \<open>9\<close>, and the total is \<open>2\<close>
  throughout.
\<close>

theorem pool_status_counts_witness:
  "map status (run_pool two_tokens both_rate_limited) = [Cooldown, Cooldown] \<and>
   map cooldown_until (run_pool two_tokens both_rate_limited) = [Some 15, Some 10] \<and>
   (15::nat) \<le> 20 \<and> (10::nat) \<le> 20 \<and>
   total_tokens (GetPoolStatus 20 (run_pool two_tokens both_rate_limited)) = 2 \<and>
   active_tokens (GetPoolStatus 20 (run_pool two_tokens both_rate_limited)) = 2 \<and>
   total_tokens (GetPoolStatus 12 (run_pool two_tokens both_rate_limited)) = 2 \<and>
   active_tokens (GetPoolStatus 12 (run_pool two_tokens both_rate_limited)) = 1 \<and>
   total_tokens (GetPoolStatus 9 (run_pool two_tokens both_rate_limited)) = 2 \<and>
   active_tokens (GetPoolStatus 9 (run_pool two_tokens both_rate_limited)) = 0"
proof -
  let ?pool = "run_pool two_tokens both_rate_limited"
  let ?a = "?pool ! 0" and ?b = "?pool ! 1"
  have pool: "?pool = [?a, ?b]"
    by code_simp
  have st: "map status ?pool = [Cooldown, Cooldown]"
    and cu: "map cooldown_until ?pool = [Some 15, Some 10]"
    by code_simp+
  have a: "status ?a = Cooldown" "cooldown_until ?a = Some 15"
    and b: "status ?b = Cooldown" "cooldown_until ?b = Some 10"
    by code_simp+
  from pool_status_counts [of 20 two_tokens both_rate_limited ?a 15 ?b 10] a b
  have "total_tokens (GetPoolStatus 20 [?a, ?b]) = 2 \<and> active_tokens (GetPoolStatus 20 [?a, ?b]) = 2"
    by simp
  then have twenty: "total_tokens (GetPoolStatus 20 ?pool) = 2 \<and> active_tokens (GetPoolStatus 20 ?pool) = 2"
    using pool by simp
  have "total_tokens (GetPoolStatus 12 ?pool) = 2" "active_tokens (GetPoolStatus 12 ?pool) = 1"
    "total_tokens (GetPoolStatus 9 ?pool) = 2" "active_tokens (GetPoolStatus 9 ?pool) = 0"
    by code_simp+
  with st cu twenty show ?thesis by simp
qed

end
